theory Spec2Isabelle
  imports Main "HOL-Library.Sublist"
begin

section \<open>Go primitives used by the repository\<close>

text \<open>
  Go's \<^verbatim>\<open>int\<close> and \<^verbatim>\<open>time.Duration\<close> are 64-bit signed integers. They are modelled as
  \<^typ>\<open>int\<close>; where the source computes with them, the wrap-around of the machine
  operation is written out with \<open>wrap64\<close>.
\<close>

definition minInt64 :: int where
  "minInt64 = - 9223372036854775808"

definition maxInt64 :: int where
  "maxInt64 = 9223372036854775807"

definition wrap64 :: "int \<Rightarrow> int" where
  "wrap64 x = (x + 9223372036854775808) mod 18446744073709551616 - 9223372036854775808"

subsection \<open>strconv.Atoi and strconv.Itoa\<close>

text \<open>
  \<^verbatim>\<open>strconv.Atoi\<close> accepts an optional sign followed by at least one decimal digit and
  nothing else, and fails when the value does not fit the 64-bit \<^verbatim>\<open>int\<close>. The fast path
  of the library (short strings) and its slow path (\<^verbatim>\<open>ParseInt(s, 10, 0)\<close>) agree on that.
\<close>

definition digit_of :: "char \<Rightarrow> nat option" where
  "digit_of ch =
     (if ch = CHR ''0'' then Some 0 else if ch = CHR ''1'' then Some 1
      else if ch = CHR ''2'' then Some 2 else if ch = CHR ''3'' then Some 3
      else if ch = CHR ''4'' then Some 4 else if ch = CHR ''5'' then Some 5
      else if ch = CHR ''6'' then Some 6 else if ch = CHR ''7'' then Some 7
      else if ch = CHR ''8'' then Some 8 else if ch = CHR ''9'' then Some 9
      else None)"

fun parse_digits :: "string \<Rightarrow> nat \<Rightarrow> nat option" where
  "parse_digits [] n = Some n"
| "parse_digits (ch # s) n =
     (case digit_of ch of None \<Rightarrow> None | Some d \<Rightarrow> parse_digits s (n * 10 + d))"

definition Atoi :: "string \<Rightarrow> int option" where
  "Atoi s =
     (case s of
        [] \<Rightarrow> None
      | s0 # rest \<Rightarrow>
          (let body = (if s0 = CHR ''-'' \<or> s0 = CHR ''+'' then rest else s) in
           if body = [] then None
           else case parse_digits body 0 of
                  None \<Rightarrow> None
                | Some n \<Rightarrow>
                    (let v = (if s0 = CHR ''-'' then - int n else int n) in
                     if minInt64 \<le> v \<and> v \<le> maxInt64 then Some v else None)))"

definition digit_char :: "nat \<Rightarrow> char" where
  "digit_char d = ''0123456789'' ! d"

function digits_of :: "nat \<Rightarrow> string" where
  "digits_of n = (if n < 10 then [digit_char n] else digits_of (n div 10) @ [digit_char (n mod 10)])"
  by pat_completeness auto
termination
  by (relation "measure id") auto

declare digits_of.simps [simp del]

definition Itoa :: "int \<Rightarrow> string" where
  "Itoa i = (if i < 0 then CHR ''-'' # digits_of (nat (- i)) else digits_of (nat i))"

subsection \<open>Time\<close>

text \<open>
  A \<^verbatim>\<open>time.Duration\<close> is a count of nanoseconds. A \<^verbatim>\<open>time.Time\<close> is modelled by the reading
  of the clock in nanoseconds; the zero \<^verbatim>\<open>time.Time\<close> (for which \<^verbatim>\<open>IsZero\<close> holds) is
  \<open>None\<close>. The world holds the clock, the log of the durations handed to
  \<^verbatim>\<open>time.Sleep\<close>, and the scheduler's overshoot: \<^verbatim>\<open>time.Sleep d\<close> pauses for at least \<open>d\<close>,
  and returns at once when \<open>d\<close> is zero or negative.
\<close>

type_synonym Duration = int

definition Millisecond :: Duration where
  "Millisecond = 1000000"

definition Second :: Duration where
  "Second = 1000000000"

record World =
  clock :: int
  sleeps :: "Duration list"
  overshoot :: "nat \<Rightarrow> nat"

definition time_Now :: "World \<Rightarrow> int" where
  "time_Now w = clock w"

definition time_Sleep :: "Duration \<Rightarrow> World \<Rightarrow> World" where
  "time_Sleep d w =
     w\<lparr>clock := clock w + (if d \<le> 0 then 0 else d + int (overshoot w (length (sleeps w)))),
       sleeps := sleeps w @ [d]\<rparr>"

text \<open>\<^verbatim>\<open>t.Sub(u)\<close> saturates at the largest and smallest \<^verbatim>\<open>Duration\<close>.\<close>

definition time_Sub :: "int \<Rightarrow> int \<Rightarrow> Duration" where
  "time_Sub t u =
     (let d = t - u in
      if d > maxInt64 then maxInt64 else if d < minInt64 then minInt64 else d)"

section \<open>The rate governor of pkg/gitlab/client.go\<close>

text \<open>
  The \<^verbatim>\<open>Client\<close> struct. Its field \<^verbatim>\<open>client\<close>, the handle of the platform API, is the
  \<open>Platform\<close> record below and is passed beside the rate state.
\<close>

record Client =
  lastRequestTime :: "int option"
  minInterval :: Duration

text \<open>
  The field values \<^verbatim>\<open>NewClient\<close> gives a fresh client. The messages the governor
  prints are left out of the model.
\<close>

definition NewClient :: Client where
  "NewClient = \<lparr>lastRequestTime = None, minInterval = 100 * Millisecond\<rparr>"

definition rateLimitWait :: "Client \<Rightarrow> World \<Rightarrow> Client \<times> World" where
  "rateLimitWait c w =
     (let now = time_Now w;
          w1 = (case lastRequestTime c of
                  None \<Rightarrow> w
                | Some l \<Rightarrow>
                    (let elapsed = time_Sub now l in
                     if elapsed < minInterval c
                     then (let sleepDuration = wrap64 (minInterval c - elapsed)
                           in time_Sleep sleepDuration w)
                     else w))
      in (c\<lparr>lastRequestTime := Some (time_Now w1)\<rparr>, w1))"

text \<open>
  An \<^verbatim>\<open>*http.Response\<close>, as far as the governor reads it: \<open>Header_Get r name\<close> is
  \<^verbatim>\<open>resp.Header.Get(name)\<close> (the empty string when the header is absent) and
  \<open>StatusCode\<close> the status code. A nil pointer is \<open>None\<close>.
\<close>

record Response =
  Header_Get :: "string \<Rightarrow> string"
  StatusCode :: int

definition checkRateLimitHeaders :: "Client \<Rightarrow> Response option \<Rightarrow> World \<Rightarrow> Client \<times> World" where
  "checkRateLimitHeaders c resp w =
     (case resp of
        None \<Rightarrow> (c, w)
      | Some r \<Rightarrow>
          (let rateLimitRemaining0 = Header_Get r ''RateLimit-Remaining'';
               rateLimitRemaining =
                 (if rateLimitRemaining0 = [] then Header_Get r ''X-RateLimit-Remaining''
                  else rateLimitRemaining0);
               c1 = (if rateLimitRemaining \<noteq> [] then
                       (case Atoi rateLimitRemaining of
                          None \<Rightarrow> c
                        | Some remaining \<Rightarrow>
                            if remaining \<le> 10 then c\<lparr>minInterval := 1 * Second\<rparr>
                            else if remaining \<le> 5 then c\<lparr>minInterval := 5 * Second\<rparr>
                            else c)
                     else c)
           in if StatusCode r = 429 then
                (let retryAfter = Header_Get r ''Retry-After'' in
                 case (if retryAfter \<noteq> [] then Atoi retryAfter else None) of
                   Some seconds \<Rightarrow> (c1, time_Sleep (wrap64 (seconds * Second)) w)
                 | None \<Rightarrow> (c1, time_Sleep (60 * Second) w))
              else (c1, w)))"


text \<open>
  A run of the governor: the calls the fetcher makes on it, in order. \<open>BeforeRequest\<close>
  is \<^verbatim>\<open>rateLimitWait\<close>, \<open>AfterResponse\<close> is \<^verbatim>\<open>checkRateLimitHeaders\<close>.
\<close>

datatype GovernorCall = BeforeRequest | AfterResponse "Response option"

fun governor_step :: "Client \<times> World \<Rightarrow> GovernorCall \<Rightarrow> Client \<times> World" where
  "governor_step (c, w) BeforeRequest = rateLimitWait c w"
| "governor_step (c, w) (AfterResponse resp) = checkRateLimitHeaders c resp w"

definition governor_run :: "Client \<times> World \<Rightarrow> GovernorCall list \<Rightarrow> Client \<times> World" where
  "governor_run s calls = foldl governor_step s calls"

text \<open>Concrete inputs for the evaluations below.\<close>

definition world0 :: World where
  "world0 = \<lparr>clock = 0, sleeps = [], overshoot = (\<lambda>k. 0)\<rparr>"

definition response_with :: "string \<Rightarrow> string \<Rightarrow> int \<Rightarrow> Response" where
  "response_with name v status =
     \<lparr>Header_Get = (\<lambda>n. if n = name then v else []), StatusCode = status\<rparr>"

definition client_at :: "int \<Rightarrow> Duration \<Rightarrow> Client" where
  "client_at l d = \<lparr>lastRequestTime = Some l, minInterval = d\<rparr>"

definition retry_after_date :: Response where
  "retry_after_date = response_with ''Retry-After'' ''Wed, 21 Oct 2015 07:28:00 GMT'' 429"

definition retry_after_huge :: Response where
  "retry_after_huge = response_with ''Retry-After'' ''9223372037'' 429"

section \<open>The paginated fetcher of pkg/gitlab/client.go\<close>

record MergeRequestRef =
  ID :: int
  IID :: int
  HeadSHA :: string

text \<open>
  What the fetcher reads of the platform library's types: of a listed merge request
  (\<^verbatim>\<open>mr.ID\<close>, \<^verbatim>\<open>mr.IID\<close>), of a detailed merge request (its own \<^verbatim>\<open>ID\<close> and \<^verbatim>\<open>IID\<close>, and
  \<^verbatim>\<open>DiffRefs.HeadSha\<close>), of the list options (\<^verbatim>\<open>Page\<close>, \<^verbatim>\<open>PerPage\<close>, \<^verbatim>\<open>State\<close>) and of the
  library's response (the embedded \<^verbatim>\<open>*http.Response\<close> and \<^verbatim>\<open>NextPage\<close>).
\<close>

record BasicMergeRequest =
  mr_ID :: int
  mr_IID :: int

record MergeRequest =
  detail_ID :: int
  detail_IID :: int
  DiffRefs_HeadSha :: string

record ListOptions =
  Page :: int
  PerPage :: int
  State :: "string option"

record GitlabResponse =
  http_Response :: "Response option"
  NextPage :: int

text \<open>
  The platform behind \<^verbatim>\<open>c.client.MergeRequests\<close>: each call returns either an error (its
  message) or the decoded payload with the response.
\<close>

record Platform =
  ListProjectMergeRequests ::
    "string \<Rightarrow> ListOptions \<Rightarrow> string + (BasicMergeRequest list \<times> GitlabResponse)"
  GetMergeRequest :: "string \<Rightarrow> int \<Rightarrow> string + (MergeRequest \<times> GitlabResponse)"

text \<open>
  The sink, \<^verbatim>\<open>MergeRequestProcessor\<close>. A Go callback may keep state between calls; the
  model hands it the references of its earlier invocations in this run, in order, and
  the current one. \<open>None\<close> is a nil error.
\<close>

type_synonym MergeRequestProcessor = "MergeRequestRef list \<Rightarrow> MergeRequestRef \<Rightarrow> string option"

text \<open>
  What a run does to the outside, in order: a listing request with its options, a detail
  request for a listed item, an invocation of the sink.
\<close>

datatype Event =
  ListRequest ListOptions
| DetailRequest BasicMergeRequest
| SinkCall MergeRequestRef

record Run =
  client :: Client
  world :: World
  trace :: "Event list"

definition requests :: "Event list \<Rightarrow> ListOptions list" where
  "requests tr = concat (map (\<lambda>e. case e of ListRequest opts \<Rightarrow> [opts] | _ \<Rightarrow> []) tr)"

definition visited :: "Event list \<Rightarrow> BasicMergeRequest list" where
  "visited tr = concat (map (\<lambda>e. case e of DetailRequest mr \<Rightarrow> [mr] | _ \<Rightarrow> []) tr)"

definition sunk :: "Event list \<Rightarrow> MergeRequestRef list" where
  "sunk tr = concat (map (\<lambda>e. case e of SinkCall ref \<Rightarrow> [ref] | _ \<Rightarrow> []) tr)"

text \<open>The body of the inner loop, \<^verbatim>\<open>for _, mr := range mrs\<close>: \<open>Some err\<close> is the early return.\<close>

definition visit_item ::
  "Platform \<Rightarrow> MergeRequestProcessor \<Rightarrow> string \<Rightarrow> BasicMergeRequest \<Rightarrow> Run \<Rightarrow> string option \<times> Run" where
  "visit_item P processor projectPath mr run =
     (case rateLimitWait (client run) (world run) of
        (c1, w1) \<Rightarrow>
          (let run1 = run\<lparr>client := c1, world := w1, trace := trace run @ [DetailRequest mr]\<rparr>
           in case GetMergeRequest P projectPath (mr_IID mr) of
                Inl err \<Rightarrow>
                  (Some (''failed to fetch merge request '' @ Itoa (mr_IID mr) @ '': '' @ err), run1)
              | Inr (detailedMR, detailResp) \<Rightarrow>
                  (case checkRateLimitHeaders c1 (http_Response detailResp) w1 of
                     (c2, w2) \<Rightarrow>
                       (let run2 = run1\<lparr>client := c2, world := w2\<rparr>
                        in if DiffRefs_HeadSha detailedMR \<noteq> [] then
                             (let ref = \<lparr>ID = mr_ID mr, IID = mr_IID mr,
                                         HeadSHA = DiffRefs_HeadSha detailedMR\<rparr>;
                                  run3 = run2\<lparr>trace := trace run2 @ [SinkCall ref]\<rparr>
                              in case processor (sunk (trace run2)) ref of
                                   Some err \<Rightarrow>
                                     (Some (''failed to process merge request '' @ Itoa (mr_IID mr)
                                            @ '': '' @ err), run3)
                                 | None \<Rightarrow> (None, run3))
                           else (None, run2)))))"

fun process_page ::
  "Platform \<Rightarrow> MergeRequestProcessor \<Rightarrow> string \<Rightarrow> BasicMergeRequest list \<Rightarrow> Run \<Rightarrow> string option \<times> Run" where
  "process_page P processor projectPath [] run = (None, run)"
| "process_page P processor projectPath (mr # mrs) run =
     (case visit_item P processor projectPath mr run of
        (Some err, run') \<Rightarrow> (Some err, run')
      | (None, run') \<Rightarrow> process_page P processor projectPath mrs run')"

text \<open>
  The outer loop, \<^verbatim>\<open>for { ... }\<close>, which ends only by \<^verbatim>\<open>break\<close> or \<^verbatim>\<open>return\<close>: the fuel bounds
  the number of listing requests. The result is what the call has come to within the
  fuel, \<open>Returned err\<close> with the error it returned (\<open>None\<close> for nil) or \<open>OutOfFuel\<close> when it
  has not returned yet, together with the state reached so far. The page counter and
  the progress messages only print and are left out.
\<close>

datatype Outcome = OutOfFuel | Returned "string option"

fun fetch_pages ::
  "nat \<Rightarrow> Platform \<Rightarrow> MergeRequestProcessor \<Rightarrow> string \<Rightarrow> ListOptions \<Rightarrow> Run
     \<Rightarrow> Outcome \<times> Run" where
  "fetch_pages 0 P processor projectPath opts run = (OutOfFuel, run)"
| "fetch_pages (Suc fuel) P processor projectPath opts run =
     (case rateLimitWait (client run) (world run) of
        (c1, w1) \<Rightarrow>
          (let run1 = run\<lparr>client := c1, world := w1, trace := trace run @ [ListRequest opts]\<rparr>
           in case ListProjectMergeRequests P projectPath opts of
                Inl err \<Rightarrow> (Returned (Some (''failed to fetch merge requests: '' @ err)), run1)
              | Inr (mrs, resp) \<Rightarrow>
                  (case checkRateLimitHeaders c1 (http_Response resp) w1 of
                     (c2, w2) \<Rightarrow>
                       (case process_page P processor projectPath mrs
                               (run1\<lparr>client := c2, world := w2\<rparr>) of
                          (Some err, run3) \<Rightarrow> (Returned (Some err), run3)
                        | (None, run3) \<Rightarrow>
                            if NextPage resp = 0 then (Returned None, run3)
                            else fetch_pages fuel P processor projectPath
                                   (opts\<lparr>Page := NextPage resp\<rparr>) run3))))"

text \<open>
  \<open>fetch_progress\<close> is the state a call has reached within the fuel, returned or not;
  \<open>FetchMergeRequestRefs\<close> is the call itself: \<open>None\<close> when it has not returned within the
  fuel, otherwise the error it returned and the final state.
\<close>

definition fetch_progress ::
  "nat \<Rightarrow> Platform \<Rightarrow> Client \<Rightarrow> World \<Rightarrow> string \<Rightarrow> MergeRequestProcessor \<Rightarrow> Run" where
  "fetch_progress fuel P c w projectPath processor =
     snd (fetch_pages fuel P processor projectPath
            \<lparr>Page = 0, PerPage = 100, State = Some ''all''\<rparr>
            \<lparr>client = c, world = w, trace = []\<rparr>)"

definition FetchMergeRequestRefs ::
  "nat \<Rightarrow> Platform \<Rightarrow> Client \<Rightarrow> World \<Rightarrow> string \<Rightarrow> MergeRequestProcessor
     \<Rightarrow> (string option \<times> Run) option" where
  "FetchMergeRequestRefs fuel P c w projectPath processor =
     (case fetch_pages fuel P processor projectPath
             \<lparr>Page = 0, PerPage = 100, State = Some ''all''\<rparr>
             \<lparr>client = c, world = w, trace = []\<rparr> of
        (OutOfFuel, run) \<Rightarrow> None
      | (Returned err, run) \<Rightarrow> Some (err, run))"

subsection \<open>Vocabulary of the fetcher's properties\<close>

text \<open>
  The listing requests the pagination issues from \<open>opts\<close> on when no detail request and
  no sink invocation fails: each request after the first carries the cursor the
  platform returned for the one before, and the chain stops after a listing error, after
  a zero cursor, or when the fuel is used up.
\<close>

fun cursor_chain :: "nat \<Rightarrow> Platform \<Rightarrow> string \<Rightarrow> ListOptions \<Rightarrow> ListOptions list" where
  "cursor_chain 0 P projectPath opts = []"
| "cursor_chain (Suc fuel) P projectPath opts =
     opts # (case ListProjectMergeRequests P projectPath opts of
               Inl err \<Rightarrow> []
             | Inr (mrs, resp) \<Rightarrow>
                 if NextPage resp = 0 then []
                 else cursor_chain fuel P projectPath (opts\<lparr>Page := NextPage resp\<rparr>))"

definition next_cursor :: "Platform \<Rightarrow> string \<Rightarrow> ListOptions \<Rightarrow> int option" where
  "next_cursor P projectPath opts =
     (case ListProjectMergeRequests P projectPath opts of
        Inl err \<Rightarrow> None
      | Inr (mrs, resp) \<Rightarrow> Some (NextPage resp))"

definition page_items :: "Platform \<Rightarrow> string \<Rightarrow> ListOptions \<Rightarrow> BasicMergeRequest list" where
  "page_items P projectPath opts =
     (case ListProjectMergeRequests P projectPath opts of
        Inl err \<Rightarrow> []
      | Inr (mrs, resp) \<Rightarrow> mrs)"

text \<open>The reference a visited item is offered to the sink with, if any.\<close>

definition emitted :: "Platform \<Rightarrow> string \<Rightarrow> BasicMergeRequest \<Rightarrow> MergeRequestRef list" where
  "emitted P projectPath mr =
     (case GetMergeRequest P projectPath (mr_IID mr) of
        Inl err \<Rightarrow> []
      | Inr (detailedMR, detailResp) \<Rightarrow>
          if DiffRefs_HeadSha detailedMR \<noteq> []
          then [\<lparr>ID = mr_ID mr, IID = mr_IID mr, HeadSHA = DiffRefs_HeadSha detailedMR\<rparr>]
          else [])"

text \<open>
  The error a single step of a run ends in, if it fails; \<open>hist\<close> are the references the
  sink was invoked with before the step.
\<close>

fun step_error ::
  "Platform \<Rightarrow> MergeRequestProcessor \<Rightarrow> string \<Rightarrow> MergeRequestRef list \<Rightarrow> Event \<Rightarrow> string option" where
  "step_error P processor projectPath hist (ListRequest opts) =
     (case ListProjectMergeRequests P projectPath opts of
        Inl err \<Rightarrow> Some (''failed to fetch merge requests: '' @ err)
      | Inr ok \<Rightarrow> None)"
| "step_error P processor projectPath hist (DetailRequest mr) =
     (case GetMergeRequest P projectPath (mr_IID mr) of
        Inl err \<Rightarrow> Some (''failed to fetch merge request '' @ Itoa (mr_IID mr) @ '': '' @ err)
      | Inr ok \<Rightarrow> None)"
| "step_error P processor projectPath hist (SinkCall ref) =
     (case processor hist ref of
        Some err \<Rightarrow> Some (''failed to process merge request '' @ Itoa (IID ref) @ '': '' @ err)
      | None \<Rightarrow> None)"

definition error_at ::
  "Platform \<Rightarrow> MergeRequestProcessor \<Rightarrow> string \<Rightarrow> Event list \<Rightarrow> nat \<Rightarrow> string option" where
  "error_at P processor projectPath tr i =
     step_error P processor projectPath (sunk (take i tr)) (tr ! i)"

definition all_steps_ok ::
  "Platform \<Rightarrow> MergeRequestProcessor \<Rightarrow> string \<Rightarrow> Event list \<Rightarrow> bool" where
  "all_steps_ok P processor projectPath tr =
     (\<forall>i < length tr. error_at P processor projectPath tr i = None)"

text \<open>The events of one visited item: its detail request, then its sink invocation, if any.\<close>

definition item_events :: "Platform \<Rightarrow> string \<Rightarrow> BasicMergeRequest \<Rightarrow> Event list" where
  "item_events P projectPath mr = DetailRequest mr # map SinkCall (emitted P projectPath mr)"

text \<open>The error a call has returned so far, if any.\<close>

definition error_of :: "Outcome \<Rightarrow> string option" where
  "error_of out = (case out of Returned (Some m) \<Rightarrow> Some m | _ \<Rightarrow> None)"

text \<open>The outcome of a run so far: nil and no failed step, or the error of its last step.\<close>

definition ends ::
  "Platform \<Rightarrow> MergeRequestProcessor \<Rightarrow> string \<Rightarrow> string option \<Rightarrow> Event list \<Rightarrow> bool" where
  "ends P processor projectPath res tr =
     (case res of
        None \<Rightarrow> all_steps_ok P processor projectPath tr
      | Some m \<Rightarrow>
          (\<exists>tr0 e. tr = tr0 @ [e] \<and> all_steps_ok P processor projectPath tr0
             \<and> step_error P processor projectPath (sunk tr0) e = Some m))"

text \<open>What is observed of a run that has returned.\<close>

definition result_of :: "(string option \<times> Run) option \<Rightarrow> string option option" where
  "result_of x = map_option fst x"

definition trace_of :: "(string option \<times> Run) option \<Rightarrow> Event list" where
  "trace_of x = (case x of None \<Rightarrow> [] | Some (res, run) \<Rightarrow> trace run)"

text \<open>Concrete platforms and sinks for the evaluations below.\<close>

definition item :: "int \<Rightarrow> int \<Rightarrow> BasicMergeRequest" where
  "item i n = \<lparr>mr_ID = i, mr_IID = n\<rparr>"

definition detail :: "int \<Rightarrow> int \<Rightarrow> string \<Rightarrow> MergeRequest" where
  "detail i n sha = \<lparr>detail_ID = i, detail_IID = n, DiffRefs_HeadSha = sha\<rparr>"

definition page_opts :: "int \<Rightarrow> ListOptions" where
  "page_opts n = \<lparr>Page = n, PerPage = 100, State = Some ''all''\<rparr>"

definition ok_response :: "int \<Rightarrow> GitlabResponse" where
  "ok_response n = \<lparr>http_Response = Some (response_with [] [] 200), NextPage = n\<rparr>"

definition accept_all :: MergeRequestProcessor where
  "accept_all hist ref = None"

definition reject_iid :: "int \<Rightarrow> MergeRequestProcessor" where
  "reject_iid n hist ref = (if IID ref = n then Some ''disk full'' else None)"

text \<open>
  Two pages: items 1 and 2, then items 3 and 4. The detail record of item 2 has an
  empty head hash.
\<close>

definition two_pages :: Platform where
  "two_pages =
     \<lparr>ListProjectMergeRequests = (\<lambda>projectPath opts.
          if Page opts = 0 then Inr ([item 101 1, item 102 2], ok_response 2)
          else if Page opts = 2 then Inr ([item 103 3, item 104 4], ok_response 0)
          else Inl ''GET https://gitlab.com/api/v4/projects/g/p/merge_requests: 404''),
      GetMergeRequest = (\<lambda>projectPath iid.
          Inr (detail (100 + iid) iid (if iid = 2 then [] else ''abc''), ok_response 0))\<rparr>"

text \<open>One page, one item; the detail record carries another id than the listing.\<close>

definition mismatched :: Platform where
  "mismatched =
     \<lparr>ListProjectMergeRequests = (\<lambda>projectPath opts. Inr ([item 1 7], ok_response 0)),
      GetMergeRequest = (\<lambda>projectPath iid. Inr (detail 999 7 ''abc'', ok_response 0))\<rparr>"

text \<open>Two platforms whose listing fails with the same error, on the first and on the second page.\<close>

definition first_page_down :: Platform where
  "first_page_down =
     \<lparr>ListProjectMergeRequests = (\<lambda>projectPath opts.
          Inl ''GET https://gitlab.com/api/v4/projects/g/p/merge_requests: 500''),
      GetMergeRequest = (\<lambda>projectPath iid. Inl ''unused'')\<rparr>"

definition second_page_down :: Platform where
  "second_page_down =
     \<lparr>ListProjectMergeRequests = (\<lambda>projectPath opts.
          if Page opts = 0 then Inr ([], ok_response 2)
          else Inl ''GET https://gitlab.com/api/v4/projects/g/p/merge_requests: 500''),
      GetMergeRequest = (\<lambda>projectPath iid. Inl ''unused'')\<rparr>"

text \<open>The two pages again, with the listing of the second page failing.\<close>

definition later_page_down :: Platform where
  "later_page_down =
     two_pages\<lparr>ListProjectMergeRequests := (\<lambda>projectPath opts.
        if Page opts = 0 then ListProjectMergeRequests two_pages projectPath opts
        else Inl ''GET https://gitlab.com/api/v4/projects/g/p/merge_requests: 500'')\<rparr>"

text \<open>A platform whose cursor never reaches zero.\<close>

definition endless :: Platform where
  "endless =
     \<lparr>ListProjectMergeRequests = (\<lambda>projectPath opts. Inr ([], ok_response 1)),
      GetMergeRequest = (\<lambda>projectPath iid. Inl ''unused'')\<rparr>"

text \<open>The two pages again, with the detail lookup of item 3 failing.\<close>

definition two_pages_broken :: Platform where
  "two_pages_broken =
     two_pages\<lparr>GetMergeRequest := (\<lambda>projectPath iid.
        if iid = 3 then Inl ''connection reset'' else GetMergeRequest two_pages projectPath iid)\<rparr>"

section \<open>The record codec of pkg/csv/writer.go\<close>

subsection \<open>encoding/csv: the writer\<close>

text \<open>
  A Go string is a sequence of bytes, here a \<^typ>\<open>string\<close>. The writer is the library's
  with its defaults: comma as delimiter, no \<^verbatim>\<open>UseCRLF\<close>.
\<close>

definition NL :: char where
  "NL = CHR 0x0A"

definition CR :: char where
  "CR = CHR 0x0D"

definition quote :: char where
  "quote = CHR 0x22"

definition comma :: char where
  "comma = CHR 0x2C"

text \<open>
  The UTF-8 encodings of the runes for which \<^verbatim>\<open>unicode.IsSpace\<close> holds. A field's first
  rune is one of them exactly when the field begins with one of these byte sequences.
\<close>

definition space_encodings :: "string list" where
  "space_encodings =
     [[CHR 0x09], [CHR 0x0A], [CHR 0x0B], [CHR 0x0C], [CHR 0x0D], [CHR 0x20],
      [CHR 0xC2, CHR 0x85], [CHR 0xC2, CHR 0xA0], [CHR 0xE1, CHR 0x9A, CHR 0x80],
      [CHR 0xE2, CHR 0x80, CHR 0x80], [CHR 0xE2, CHR 0x80, CHR 0x81],
      [CHR 0xE2, CHR 0x80, CHR 0x82], [CHR 0xE2, CHR 0x80, CHR 0x83],
      [CHR 0xE2, CHR 0x80, CHR 0x84], [CHR 0xE2, CHR 0x80, CHR 0x85],
      [CHR 0xE2, CHR 0x80, CHR 0x86], [CHR 0xE2, CHR 0x80, CHR 0x87],
      [CHR 0xE2, CHR 0x80, CHR 0x88], [CHR 0xE2, CHR 0x80, CHR 0x89],
      [CHR 0xE2, CHR 0x80, CHR 0x8A], [CHR 0xE2, CHR 0x80, CHR 0xA8],
      [CHR 0xE2, CHR 0x80, CHR 0xA9], [CHR 0xE2, CHR 0x80, CHR 0xAF],
      [CHR 0xE2, CHR 0x81, CHR 0x9F], [CHR 0xE3, CHR 0x80, CHR 0x80]]"

definition begins_with_space :: "string \<Rightarrow> bool" where
  "begins_with_space field = list_ex (\<lambda>enc. take (length enc) field = enc) space_encodings"

definition fieldNeedsQuotes :: "string \<Rightarrow> bool" where
  "fieldNeedsQuotes field =
     (if field = [] then False
      else if field = [CHR 0x5C, CHR 0x2E] then True
      else if list_ex (\<lambda>c. c = NL \<or> c = CR \<or> c = quote \<or> c = comma) field then True
      else begins_with_space field)"

text \<open>Inside quotes a quote is doubled; without \<^verbatim>\<open>UseCRLF\<close> every other byte is copied.\<close>

fun quote_body :: "string \<Rightarrow> string" where
  "quote_body [] = []"
| "quote_body (c # cs) = (if c = quote then [quote, quote] else [c]) @ quote_body cs"

definition write_field :: "string \<Rightarrow> string" where
  "write_field field =
     (if fieldNeedsQuotes field then quote # quote_body field @ [quote] else field)"

fun write_fields :: "string list \<Rightarrow> string" where
  "write_fields [] = []"
| "write_fields [field] = write_field field"
| "write_fields (field # flds) = write_field field @ comma # write_fields flds"

definition csv_Write :: "string list \<Rightarrow> string" where
  "csv_Write record = write_fields record @ [NL]"

subsection \<open>encoding/csv: the reader\<close>

text \<open>
  The reader is the library's with its defaults: comma as delimiter, no comment
  character, no lazy quotes, no trimming, \<^verbatim>\<open>FieldsPerRecord\<close> zero at the start. Its
  \<^verbatim>\<open>readLine\<close> cuts the input after each line feed, turns a final \<^verbatim>\<open>\r\n\<close> into \<^verbatim>\<open>\n\<close>, and
  drops a carriage return that ends the input; \<open>readLines\<close> gives the lines it returns
  up to the end of the input.
\<close>

datatype csv_error = ErrBareQuote | ErrQuote | ErrFieldCount

definition lengthNL :: "string \<Rightarrow> nat" where
  "lengthNL line = (if line \<noteq> [] \<and> last line = NL then 1 else 0)"

definition normalizeCRLF :: "string \<Rightarrow> string" where
  "normalizeCRLF line =
     (if 2 \<le> length line \<and> line ! (length line - 2) = CR \<and> line ! (length line - 1) = NL
      then take (length line - 2) line @ [NL]
      else line)"

definition dropFinalCR :: "string \<Rightarrow> string" where
  "dropFinalCR line = (if line \<noteq> [] \<and> last line = CR then butlast line else line)"

fun readLines :: "string \<Rightarrow> string \<Rightarrow> string list" where
  "readLines cur [] = (if cur = [] then [] else [dropFinalCR cur])"
| "readLines cur (c # cs) =
     (if c = NL then normalizeCRLF (cur @ [c]) # readLines [] cs
      else readLines (cur @ [c]) cs)"

text \<open>\<open>cut c line\<close>: the bytes before the first \<open>c\<close> of the line and those after it.\<close>

fun cut :: "char \<Rightarrow> string \<Rightarrow> (string \<times> string) option" where
  "cut c [] = None"
| "cut c (x # xs) =
     (if x = c then Some ([], xs)
      else case cut c xs of None \<Rightarrow> None | Some (a, b) \<Rightarrow> Some (x # a, b))"

lemma cut_length: "cut c xs = Some (a, b) \<Longrightarrow> length b < length xs"
  by (induction xs arbitrary: a b) (auto split: if_splits option.splits)

text \<open>
  The loop \<^verbatim>\<open>parseField\<close> of \<^verbatim>\<open>readRecord\<close>, from the line in hand and the lines after
  it: the fields of the record and the lines left, or the error. \<open>parseQuoted\<close> is its
  inner loop over a quoted field, which may run over several lines.
\<close>

function parseField ::
    "string \<Rightarrow> string list \<Rightarrow> string list \<Rightarrow> csv_error + (string list \<times> string list)"
  and parseQuoted ::
    "string \<Rightarrow> string list \<Rightarrow> string \<Rightarrow> string list \<Rightarrow> csv_error + (string list \<times> string list)"
where
  "parseField line rest flds =
     (if line = [] \<or> hd line \<noteq> quote then
        (case cut comma line of
           Some (field, line') \<Rightarrow>
             if quote \<in> set field then Inl ErrBareQuote
             else parseField line' rest (flds @ [field])
         | None \<Rightarrow>
             (let field = take (length line - lengthNL line) line
              in if quote \<in> set field then Inl ErrBareQuote
                 else Inr (flds @ [field], rest)))
      else parseQuoted (tl line) rest [] flds)"
| "parseQuoted line rest buf flds =
     (case cut quote line of
        Some (chunk, line') \<Rightarrow>
          if line' \<noteq> [] \<and> hd line' = quote
            then parseQuoted (tl line') rest (buf @ chunk @ [quote]) flds
          else if line' \<noteq> [] \<and> hd line' = comma
            then parseField (tl line') rest (flds @ [buf @ chunk])
          else if lengthNL line' = length line' then Inr (flds @ [buf @ chunk], rest)
          else Inl ErrQuote
      | None \<Rightarrow>
          if line \<noteq> [] then
            (case rest of
               [] \<Rightarrow> parseQuoted [] [] (buf @ line) flds
             | l # ls \<Rightarrow> parseQuoted l ls (buf @ line) flds)
          else Inl ErrQuote)"
  by pat_completeness auto
termination
  by (relation "measure (\<lambda>x. case x of
         Inl (line, rest, flds) \<Rightarrow> length line + sum_list (map (\<lambda>l. Suc (length l)) rest)
       | Inr (line, rest, buf, flds) \<Rightarrow> length line + sum_list (map (\<lambda>l. Suc (length l)) rest))")
     (auto dest!: cut_length simp: less_Suc_eq_le intro: le_trans [OF _ less_imp_le] split: list.splits)

declare parseField.simps [simp del] parseQuoted.simps [simp del]

lemma parse_rest_length:
  "parseField line rest flds = Inr (fs, rest') \<Longrightarrow> length rest' \<le> length rest"
  "parseQuoted qline qrest buf qflds = Inr (fs, rest') \<Longrightarrow> length rest' \<le> length qrest"
proof (induction line rest flds and qline qrest buf qflds arbitrary: fs rest' and fs rest'
    rule: parseField_parseQuoted.induct)
  case (1 line rest flds)
  note p = "1.prems" [unfolded parseField.simps [of line rest flds]]
  show ?case
  proof (cases "line = [] \<or> hd line \<noteq> quote")
    case True
    show ?thesis
    proof (cases "cut comma line")
      case None
      with p True show ?thesis by (auto simp: Let_def split: if_splits)
    next
      case (Some x)
      obtain field line' where x: "x = (field, line')" by (cases x)
      from p True Some x have "quote \<notin> set field"
        and "parseField line' rest (flds @ [field]) = Inr (fs, rest')"
        by (auto split: if_splits)
      with "1.IH"(1) [OF True Some x [symmetric]] show ?thesis by blast
    qed
  next
    case False
    with p have "parseQuoted (tl line) rest [] flds = Inr (fs, rest')" by simp
    with "1.IH"(2) [OF False] show ?thesis by blast
  qed
next
  case (2 line rest buf flds)
  note p = "2.prems" [unfolded parseQuoted.simps [of line rest buf flds]]
  show ?case
  proof (cases "cut quote line")
    case None
    show ?thesis
    proof (cases "line = []")
      case True
      with p None show ?thesis by simp
    next
      case False
      show ?thesis
      proof (cases rest)
        case Nil
        with p None False have "parseQuoted [] [] (buf @ line) flds = Inr (fs, rest')" by simp
        with "2.IH"(1) [OF None False Nil] Nil show ?thesis by simp
      next
        case (Cons l ls)
        with p None False have "parseQuoted l ls (buf @ line) flds = Inr (fs, rest')" by simp
        with "2.IH"(2) [OF None False Cons] Cons show ?thesis by fastforce
      qed
    qed
  next
    case (Some x)
    obtain chunk line' where x: "x = (chunk, line')" by (cases x)
    show ?thesis
    proof (cases "line' \<noteq> [] \<and> hd line' = quote")
      case True
      with p Some x have "parseQuoted (tl line') rest (buf @ chunk @ [quote]) flds = Inr (fs, rest')"
        by simp
      with "2.IH"(3) [OF Some x [symmetric] True] show ?thesis by blast
    next
      case False
      note nq = False
      show ?thesis
      proof (cases "line' \<noteq> [] \<and> hd line' = comma")
        case True
        with p Some x nq have "parseField (tl line') rest (flds @ [buf @ chunk]) = Inr (fs, rest')"
          by simp
        with "2.IH"(4) [OF Some x [symmetric] nq True] show ?thesis by blast
      next
        case False
        with p Some x nq show ?thesis by (auto split: if_splits)
      qed
    qed
  qed
qed

text \<open>
  \<^verbatim>\<open>ReadAll\<close>: records are read until the input ends; a line that is empty apart from its
  line feed is skipped; the first record fixes the number of fields of all records.
\<close>

function readRecords :: "string list \<Rightarrow> nat \<Rightarrow> csv_error + string list list" where
  "readRecords [] fieldsPerRecord = Inr []"
| "readRecords (line # rest) fieldsPerRecord =
     (if length line = lengthNL line then readRecords rest fieldsPerRecord
      else case parseField line rest [] of
             Inl err \<Rightarrow> Inl err
           | Inr (record, rest') \<Rightarrow>
               if 0 < fieldsPerRecord \<and> length record \<noteq> fieldsPerRecord then Inl ErrFieldCount
               else (case readRecords rest'
                            (if fieldsPerRecord = 0 then length record else fieldsPerRecord) of
                       Inl err \<Rightarrow> Inl err
                     | Inr records \<Rightarrow> Inr (record # records)))"
  by pat_completeness auto
termination
  by (relation "measure (\<lambda>(lines, n). length lines)") (auto dest: parse_rest_length(1))

definition csv_ReadAll :: "string \<Rightarrow> csv_error + string list list" where
  "csv_ReadAll input = readRecords (readLines [] input) 0"

subsection \<open>The files\<close>

text \<open>
  The file system: the content of each file that exists, the paths \<^verbatim>\<open>os.Create\<close>
  succeeds on, how many bytes of a write each file takes, and the files whose \<^verbatim>\<open>Close\<close>
  returns an error. \<open>accepts fs name old n\<close> is the number of bytes the file \<open>name\<close>,
  holding \<open>old\<close> bytes, takes of \<open>n\<close> bytes offered: a full disk takes the bytes that
  still fit, \<^verbatim>\<open>/dev/full\<close> takes none. \<^verbatim>\<open>os.Create\<close> truncates; \<^verbatim>\<open>os.Open\<close> fails on a
  file that does not exist. Errors of reading from an open file are outside the model.
\<close>

record FileSystem =
  files :: "string \<Rightarrow> string option"
  creatable :: "string \<Rightarrow> bool"
  accepts :: "string \<Rightarrow> nat \<Rightarrow> nat \<Rightarrow> nat"
  close_fails :: "string \<Rightarrow> bool"

definition os_Create :: "string \<Rightarrow> FileSystem \<Rightarrow> FileSystem option" where
  "os_Create name fs =
     (if creatable fs name then Some (fs\<lparr>files := (files fs)(name \<mapsto> [])\<rparr>) else None)"

text \<open>
  \<^verbatim>\<open>(*os.File).Write\<close> and \<^verbatim>\<open>WriteString\<close>: the number of bytes written, and the file
  system with them appended to the file. Fewer bytes than offered is an error.
\<close>

definition os_Write :: "string \<Rightarrow> string \<Rightarrow> FileSystem \<Rightarrow> nat \<times> FileSystem" where
  "os_Write name p fs =
     (case files fs name of
        None \<Rightarrow> (0, fs)
      | Some old \<Rightarrow>
          (case min (length p) (accepts fs name (length old) (length p)) of n \<Rightarrow>
             (n, fs\<lparr>files := (files fs)(name \<mapsto> old @ take n p)\<rparr>)))"

text \<open>\<^verbatim>\<open>(*os.File).Close\<close>: whether it returns an error. It writes nothing.\<close>

definition os_Close :: "string \<Rightarrow> FileSystem \<Rightarrow> bool" where
  "os_Close name fs = close_fails fs name"

subsection \<open>bufio: the buffered writer under the csv writer\<close>

text \<open>
  \<^verbatim>\<open>csv.NewWriter\<close> wraps the file in a \<^verbatim>\<open>bufio.Writer\<close> of the default size, 4096 bytes.
  Its state is the file it writes to, the bytes \<^verbatim>\<open>buf[0:n]\<close> it holds, and whether its
  sticky error \<^verbatim>\<open>err\<close> is set. Each of its methods below returns an error exactly when
  \<open>failed\<close> holds of the writer it leaves.
\<close>

record BufWriter =
  target :: string
  buffered :: string
  failed :: bool

definition bufSize :: nat where
  "bufSize = 4096"

definition Available :: "BufWriter \<Rightarrow> nat" where
  "Available b = bufSize - length (buffered b)"

text \<open>
  \<^verbatim>\<open>Flush\<close>: with the error set or nothing buffered it does nothing; otherwise it writes
  the buffer to the file, keeps the bytes the file did not take and, on a short write,
  sets the error.
\<close>

definition bufio_Flush :: "BufWriter \<Rightarrow> FileSystem \<Rightarrow> BufWriter \<times> FileSystem" where
  "bufio_Flush b fs =
     (if failed b then (b, fs)
      else if buffered b = [] then (b, fs)
      else case os_Write (target b) (buffered b) fs of (n, fs') \<Rightarrow>
             if n < length (buffered b) then (b\<lparr>buffered := drop n (buffered b), failed := True\<rparr>, fs')
             else (b\<lparr>buffered := []\<rparr>, fs'))"

lemma bufio_Flush_result:
  "failed (fst (bufio_Flush b fs)) \<or> buffered (fst (bufio_Flush b fs)) = []"
  by (auto simp: bufio_Flush_def split: if_splits prod.splits)

text \<open>\<^verbatim>\<open>WriteByte\<close>; \<^verbatim>\<open>WriteRune\<close> of a rune below \<^verbatim>\<open>utf8.RuneSelf\<close>, such as the comma, is the same.\<close>

definition bufio_WriteByte :: "char \<Rightarrow> BufWriter \<Rightarrow> FileSystem \<Rightarrow> BufWriter \<times> FileSystem" where
  "bufio_WriteByte c b fs =
     (if failed b then (b, fs)
      else if Available b \<le> 0 then
        (case bufio_Flush b fs of (b', fs') \<Rightarrow>
           if failed b' then (b', fs') else (b'\<lparr>buffered := buffered b' @ [c]\<rparr>, fs'))
      else (b\<lparr>buffered := buffered b @ [c]\<rparr>, fs))"

text \<open>
  \<^verbatim>\<open>WriteString\<close>: while the string is longer than the room left and no error is set, it
  hands the whole string to the file when the buffer is empty (\<^verbatim>\<open>*os.File\<close> is an
  \<^verbatim>\<open>io.StringWriter\<close>), and otherwise fills the buffer and flushes it; what is left of the
  string then goes into the buffer.
\<close>

function bufio_WriteString :: "string \<Rightarrow> BufWriter \<Rightarrow> FileSystem \<Rightarrow> BufWriter \<times> FileSystem" where
  "bufio_WriteString s b fs =
     (if Available b < length s \<and> \<not> failed b then
        (if buffered b = [] then
           (case os_Write (target b) s fs of (n, fs') \<Rightarrow>
              bufio_WriteString (drop n s) (b\<lparr>failed := n < length s\<rparr>) fs')
         else
           (case bufio_Flush (b\<lparr>buffered := buffered b @ take (Available b) s\<rparr>) fs of (b', fs') \<Rightarrow>
              bufio_WriteString (drop (Available b) s) b' fs'))
      else if failed b then (b, fs)
      else (b\<lparr>buffered := buffered b @ s\<rparr>, fs))"
  by pat_completeness auto
termination
  by (relation "measure (\<lambda>(s, b, fs).
        if failed b then 0 else 1 + 2 * length s + (if buffered b = [] then 0 else 1))")
     (use bufio_Flush_result in \<open>auto simp: case_prod_beta\<close>)

declare bufio_WriteString.simps [simp del]

subsection \<open>encoding/csv: the writer over the buffered writer\<close>

text \<open>
  The calls \<^verbatim>\<open>(*csv.Writer).Write\<close> makes on its buffered writer for a record when none of
  them fails: a comma before every field but the first; a field that needs no quotes in
  one \<^verbatim>\<open>WriteString\<close>; a quoted field between two quote bytes, cut at every quote,
  carriage return and line feed; a line feed at the end.
\<close>

datatype WriterCall = WriteByte char | WriteString string

function quoted_calls :: "string \<Rightarrow> WriterCall list" where
  "quoted_calls field =
     (if field = [] then []
      else WriteString (takeWhile (\<lambda>c. c \<noteq> quote \<and> c \<noteq> CR \<and> c \<noteq> NL) field) #
           (case dropWhile (\<lambda>c. c \<noteq> quote \<and> c \<noteq> CR \<and> c \<noteq> NL) field of
              [] \<Rightarrow> []
            | c # rest \<Rightarrow>
                (if c = quote then WriteString [quote, quote] else WriteByte c) # quoted_calls rest))"
  by pat_completeness auto
termination
proof (relation "measure length", goal_cases)
  case 1
  show ?case by simp
next
  case (2 field c rest)
  have "length (dropWhile (\<lambda>c. c \<noteq> quote \<and> c \<noteq> CR \<and> c \<noteq> NL) field) \<le> length field"
    by (rule length_dropWhile_le)
  with 2 show ?case by simp
qed

declare quoted_calls.simps [simp del]

definition field_calls :: "string \<Rightarrow> WriterCall list" where
  "field_calls field =
     (if \<not> fieldNeedsQuotes field then [WriteString field]
      else WriteByte quote # quoted_calls field @ [WriteByte quote])"

fun fields_calls :: "nat \<Rightarrow> string list \<Rightarrow> WriterCall list" where
  "fields_calls n [] = [WriteByte NL]"
| "fields_calls n (field # flds) =
     (if 0 < n then [WriteByte comma] else []) @ field_calls field @ fields_calls (n + 1) flds"

fun run_call :: "WriterCall \<Rightarrow> BufWriter \<Rightarrow> FileSystem \<Rightarrow> BufWriter \<times> FileSystem" where
  "run_call (WriteByte c) b fs = bufio_WriteByte c b fs"
| "run_call (WriteString s) b fs = bufio_WriteString s b fs"

text \<open>\<^verbatim>\<open>Write\<close> returns at the first call that returns an error, with that error.\<close>

fun run_calls :: "WriterCall list \<Rightarrow> BufWriter \<Rightarrow> FileSystem \<Rightarrow> BufWriter \<times> FileSystem" where
  "run_calls [] b fs = (b, fs)"
| "run_calls (x # xs) b fs =
     (case run_call x b fs of (b', fs') \<Rightarrow> if failed b' then (b', fs') else run_calls xs b' fs')"

definition csv_Writer_Write :: "string list \<Rightarrow> BufWriter \<Rightarrow> FileSystem \<Rightarrow> BufWriter \<times> FileSystem" where
  "csv_Writer_Write record b fs = run_calls (fields_calls 0 record) b fs"

datatype codec_error =
  CreateFailed string
| WriteFailed
| OpenFailed string
| ReadFailed csv_error
| InvalidFormat nat nat
| InvalidIID nat

subsection \<open>WriteRefsToFile and ReadRefsFromFile\<close>

text \<open>
  The loop of \<^verbatim>\<open>WriteRefsToFile\<close> over the references: it returns at the first
  \<^verbatim>\<open>writer.Write\<close> that returns an error.
\<close>

fun write_loop ::
  "MergeRequestRef list \<Rightarrow> BufWriter \<Rightarrow> FileSystem \<Rightarrow> codec_error option \<times> BufWriter \<times> FileSystem" where
  "write_loop [] b fs = (None, b, fs)"
| "write_loop (ref # refs) b fs =
     (case csv_Writer_Write [Itoa (IID ref), HeadSHA ref] b fs of (b', fs') \<Rightarrow>
        if failed b' then (Some WriteFailed, b', fs') else write_loop refs b' fs')"

text \<open>
  \<^verbatim>\<open>WriteRefsToFile\<close>: the error it returns, if any, and the file system it leaves. The
  deferred \<^verbatim>\<open>writer.Flush()\<close> and \<^verbatim>\<open>file.Close()\<close> run, in this order, after the result
  is fixed: the error of the flush and the error of the close reach nobody, so the call
  can return nil with bytes still in the buffer that the file did not take.
\<close>

definition WriteRefsToFile ::
  "MergeRequestRef list \<Rightarrow> string \<Rightarrow> FileSystem \<Rightarrow> codec_error option \<times> FileSystem" where
  "WriteRefsToFile refs filename fs =
     (case os_Create filename fs of
        None \<Rightarrow> (Some (CreateFailed filename), fs)
      | Some fs1 \<Rightarrow>
          (case write_loop refs \<lparr>target = filename, buffered = [], failed = False\<rparr> fs1 of
             (res, b, fs2) \<Rightarrow>
               (case bufio_Flush b fs2 of (flushed, fs3) \<Rightarrow>
                  (case os_Close filename fs3 of close_error \<Rightarrow> (res, fs3)))))"

text \<open>The bytes a record and a list of references are encoded as.\<close>

fun write_records :: "MergeRequestRef list \<Rightarrow> string" where
  "write_records [] = []"
| "write_records (ref # refs) = csv_Write [Itoa (IID ref), HeadSHA ref] @ write_records refs"

text \<open>
  The loop of \<^verbatim>\<open>ReadRefsFromFile\<close> over the records, \<open>i\<close> being the index of the record in
  hand: the errors carry the line number \<open>i + 1\<close> (and the number of columns found).
\<close>

fun refs_of_records :: "nat \<Rightarrow> string list list \<Rightarrow> codec_error + MergeRequestRef list" where
  "refs_of_records i [] = Inr []"
| "refs_of_records i (record # records) =
     (if length record \<noteq> 2 then Inl (InvalidFormat (i + 1) (length record))
      else case Atoi (record ! 0) of
             None \<Rightarrow> Inl (InvalidIID (i + 1))
           | Some iid \<Rightarrow>
               (case refs_of_records (i + 1) records of
                  Inl err \<Rightarrow> Inl err
                | Inr refs \<Rightarrow> Inr (\<lparr>ID = 0, IID = iid, HeadSHA = record ! 1\<rparr> # refs)))"

definition ReadRefsFromFile :: "string \<Rightarrow> FileSystem \<Rightarrow> codec_error + MergeRequestRef list" where
  "ReadRefsFromFile filename fs =
     (case files fs filename of
        None \<Rightarrow> Inl (OpenFailed filename)
      | Some content \<Rightarrow>
          (case csv_ReadAll content of
             Inl err \<Rightarrow> Inl (ReadFailed err)
           | Inr records \<Rightarrow> refs_of_records 0 records))"

subsection \<open>Vocabulary of the codec's properties\<close>

text \<open>The bytes a list of calls hands to the buffered writer.\<close>

fun call_bytes :: "WriterCall \<Rightarrow> string" where
  "call_bytes (WriteByte c) = [c]"
| "call_bytes (WriteString s) = s"

definition bytes_of :: "WriterCall list \<Rightarrow> string" where
  "bytes_of cs = concat (map call_bytes cs)"

text \<open>The file takes every write that leaves it with at most \<open>limit\<close> bytes.\<close>

definition takes :: "FileSystem \<Rightarrow> string \<Rightarrow> nat \<Rightarrow> bool" where
  "takes fs name limit = (\<forall>old n. old + n \<le> limit \<longrightarrow> n \<le> accepts fs name old n)"

text \<open>
  The writer has not failed, the file \<open>name\<close> followed by the buffer holds the bytes \<open>d\<close>,
  and nothing else of the file system \<open>fs\<close> has changed.
\<close>

definition carries :: "string \<Rightarrow> FileSystem \<Rightarrow> string \<Rightarrow> BufWriter \<times> FileSystem \<Rightarrow> bool" where
  "carries name fs d st =
     (\<not> failed (fst st) \<and> target (fst st) = name
      \<and> (\<exists>old. snd st = fs\<lparr>files := (files fs)(name \<mapsto> old)\<rparr> \<and> old @ buffered (fst st) = d))"

text \<open>A field with no comma, no quote character and no line feed.\<close>

definition plain :: "string \<Rightarrow> bool" where
  "plain s = (comma \<notin> set s \<and> quote \<notin> set s \<and> NL \<notin> set s)"

text \<open>The line a reference is encoded as, and the reference it is decoded to.\<close>

definition record_line :: "MergeRequestRef \<Rightarrow> string" where
  "record_line ref = Itoa (IID ref) @ comma # write_field (HeadSHA ref) @ [NL]"

definition decoded :: "MergeRequestRef \<Rightarrow> MergeRequestRef" where
  "decoded ref = \<lparr>ID = 0, IID = IID ref, HeadSHA = HeadSHA ref\<rparr>"

text \<open>Concrete inputs for the evaluations below: the references of the repository's test.\<close>

definition test_refs :: "MergeRequestRef list" where
  "test_refs =
     [\<lparr>ID = 1, IID = 1, HeadSHA = ''abc123''\<rparr>,
      \<lparr>ID = 2, IID = 16, HeadSHA = ''def456''\<rparr>,
      \<lparr>ID = 3, IID = 17, HeadSHA = ''ghi789''\<rparr>]"

text \<open>A file system with no file, on which every file can be created and takes every write.\<close>

definition empty_fs :: FileSystem where
  "empty_fs = \<lparr>files = (\<lambda>name. None), creatable = (\<lambda>name. True),
               accepts = (\<lambda>name old n. n), close_fails = (\<lambda>name. False)\<rparr>"

text \<open>The same with files that take no byte, as \<^verbatim>\<open>/dev/full\<close>, and whose \<^verbatim>\<open>Close\<close> fails.\<close>

definition full_fs :: FileSystem where
  "full_fs = \<lparr>files = (\<lambda>name. None), creatable = (\<lambda>name. True),
              accepts = (\<lambda>name old n. 0), close_fails = (\<lambda>name. True)\<rparr>"

text \<open>One reference whose hash is longer than the buffer.\<close>

definition long_refs :: "MergeRequestRef list" where
  "long_refs = [\<lparr>ID = 1, IID = 1, HeadSHA = replicate 5000 (CHR ''a'')\<rparr>]"

definition read_back :: "MergeRequestRef list \<Rightarrow> string \<Rightarrow> FileSystem \<Rightarrow> codec_error + MergeRequestRef list" where
  "read_back refs filename fs =
     (case WriteRefsToFile refs filename fs of
        (Some err, fs') \<Rightarrow> Inl err
      | (None, fs') \<Rightarrow> ReadRefsFromFile filename fs')"

section \<open>Properties of the rate governor\<close>

lemma wrap64_id: "minInt64 \<le> x \<Longrightarrow> x \<le> maxInt64 \<Longrightarrow> wrap64 x = x"
  by (simp add: wrap64_def minInt64_def maxInt64_def)

lemma Atoi_Nil: "Atoi [] = None"
  by (simp add: Atoi_def)

lemma Atoi_range: "Atoi s = Some v \<Longrightarrow> minInt64 \<le> v \<and> v \<le> maxInt64"
  by (auto simp: Atoi_def Let_def split: list.splits option.splits if_splits)

lemma time_Sub_exact: "u \<le> t \<Longrightarrow> t - u \<le> maxInt64 \<Longrightarrow> time_Sub t u = t - u"
  by (simp add: time_Sub_def minInt64_def maxInt64_def)

lemma time_Sub_below:
  "u \<le> t \<Longrightarrow> time_Sub t u < m \<Longrightarrow> m \<le> maxInt64 \<Longrightarrow> time_Sub t u = t - u"
  by (simp add: time_Sub_def minInt64_def maxInt64_def Let_def split: if_splits)

lemma rateLimitWait_minInterval: "minInterval (fst (rateLimitWait c w)) = minInterval c"
  by (simp add: rateLimitWait_def Let_def)

lemma check_minInterval_cases:
  "minInterval (fst (checkRateLimitHeaders c resp w)) = minInterval c \<or>
   minInterval (fst (checkRateLimitHeaders c resp w)) = 1 * Second"
  by (auto simp: checkRateLimitHeaders_def Let_def split: option.splits)

text \<open>
  The second branch of the threshold test, \<^verbatim>\<open>else if remaining <= 5\<close>, is never taken:
  every value at or below 5 is at or below 10 and is caught by the first branch. No
  call sets the 5-second interval.
\<close>

lemma critical_tier_unreachable:
  "minInterval (fst (checkRateLimitHeaders c resp w)) = 5 * Second \<Longrightarrow> minInterval c = 5 * Second"
  using check_minInterval_cases [of c resp w] by (auto simp: Second_def)

lemma low_quota_sets_one_second:
  assumes "Header_Get r ''RateLimit-Remaining'' = v" and "v \<noteq> []"
    and "Atoi v = Some remaining" and "remaining \<le> 10"
  shows "minInterval (fst (checkRateLimitHeaders c (Some r) w)) = 1 * Second"
  using assms by (simp add: checkRateLimitHeaders_def Let_def split: option.splits)

text \<open>
  C1. The claim: remaining quota at or below 10 sets the 1-second interval, and at or
  below 5 escalates further to the 5-second interval, so that after a response reporting
  remaining quota 5 the next \<^verbatim>\<open>rateLimitWait\<close> enforces 5 seconds. On the code, a response
  whose \<^verbatim>\<open>RateLimit-Remaining\<close> header is \<^verbatim>\<open>5\<close> sets \<open>minInterval\<close> to 1 second, and the
  next \<^verbatim>\<open>rateLimitWait\<close>, called at the instant of the last request, sleeps 1 second.
\<close>

theorem quota_5_sets_moderate_interval:
  "minInterval (fst (checkRateLimitHeaders NewClient
       (Some (response_with ''RateLimit-Remaining'' ''5'' 200)) world0)) = 1000000000
   \<and> sleeps (snd (rateLimitWait
         (fst (checkRateLimitHeaders (NewClient\<lparr>lastRequestTime := Some 0\<rparr>)
            (Some (response_with ''RateLimit-Remaining'' ''5'' 200)) world0)) world0))
       = [1000000000]
   \<and> 5 * Second = 5000000000"
  by (simp add: checkRateLimitHeaders_def rateLimitWait_def response_with_def world0_def
      NewClient_def Atoi_def digit_of_def minInt64_def maxInt64_def Second_def Millisecond_def
      time_Now_def time_Sub_def time_Sleep_def wrap64_def Let_def)

lemma governor_step_mono:
  assumes "minInterval (fst s) \<le> 1 * Second"
  shows "minInterval (fst s) \<le> minInterval (fst (governor_step s call)) \<and>
         minInterval (fst (governor_step s call)) \<le> 1 * Second"
proof (cases s)
  case (Pair c w)
  show ?thesis
  proof (cases call)
    case BeforeRequest
    with Pair assms show ?thesis by (simp add: rateLimitWait_minInterval)
  next
    case (AfterResponse resp)
    with Pair assms check_minInterval_cases [of c resp w] show ?thesis by auto
  qed
qed

lemma governor_run_mono:
  "minInterval (fst s) \<le> 1 * Second \<Longrightarrow>
   minInterval (fst s) \<le> minInterval (fst (governor_run s calls)) \<and>
   minInterval (fst (governor_run s calls)) \<le> 1 * Second"
proof (induction calls arbitrary: s)
  case Nil
  then show ?case by (simp add: governor_run_def)
next
  case (Cons call calls)
  from governor_step_mono [OF Cons.prems, of call]
  have a: "minInterval (fst s) \<le> minInterval (fst (governor_step s call))"
    and b: "minInterval (fst (governor_step s call)) \<le> 1 * Second" by simp_all
  from Cons.IH [OF b] a show ?case by (simp add: governor_run_def)
qed

text \<open>
  C2. Within one run, that is from the state \<^verbatim>\<open>NewClient\<close> creates and through any
  sequence of governor calls with any responses, \<open>minInterval\<close> never decreases: its
  value after any prefix of the calls is at most its value after any longer sequence.
\<close>

theorem minInterval_never_decreases:
  "minInterval (fst (governor_run (NewClient, w) calls))
     \<le> minInterval (fst (governor_run (NewClient, w) (calls @ later)))"
proof -
  have "minInterval (fst (NewClient, w)) \<le> 1 * Second"
    by (simp add: NewClient_def Millisecond_def Second_def)
  from governor_run_mono [OF this, of calls]
  have "minInterval (fst (governor_run (NewClient, w) calls)) \<le> 1 * Second" by simp
  from governor_run_mono [OF this, of later]
  show ?thesis by (simp add: governor_run_def)
qed

text \<open>
  C7. \<^verbatim>\<open>rateLimitWait\<close>, for a client whose \<open>minInterval\<close> is a \<^verbatim>\<open>Duration\<close> and whose last
  request time is not in the future: on the first call (no last request time) nothing
  is slept and the world is unchanged; otherwise, when the time elapsed since the last
  request is below \<open>minInterval\<close>, exactly one sleep of the remaining difference is
  made, and none when it is not below; in every case the clock reading on return is
  recorded as the new last request time, \<open>minInterval\<close> is untouched, and the new
  request-start time is at least \<open>minInterval\<close> after the previous one.
\<close>

theorem rateLimitWait_spacing:
  assumes wf: "minInterval c \<le> maxInt64"
    and mono: "\<forall>l. lastRequestTime c = Some l \<longrightarrow> l \<le> clock w"
  shows "(lastRequestTime c = None \<longrightarrow> snd (rateLimitWait c w) = w)
     \<and> (\<forall>l. lastRequestTime c = Some l \<longrightarrow>
           (if clock w - l < minInterval c
            then sleeps (snd (rateLimitWait c w)) = sleeps w @ [minInterval c - (clock w - l)]
               \<and> clock (snd (rateLimitWait c w)) =
                     l + minInterval c + int (overshoot w (length (sleeps w)))
            else snd (rateLimitWait c w) = w)
           \<and> minInterval c \<le> clock (snd (rateLimitWait c w)) - l)
     \<and> lastRequestTime (fst (rateLimitWait c w)) = Some (clock (snd (rateLimitWait c w)))
     \<and> minInterval (fst (rateLimitWait c w)) = minInterval c"
proof (cases "lastRequestTime c")
  case None
  then show ?thesis by (simp add: rateLimitWait_def time_Now_def)
next
  case (Some l)
  with mono have le: "l \<le> clock w" by simp
  show ?thesis
  proof (cases "clock w - l < minInterval c")
    case True
    with wf have "clock w - l \<le> maxInt64" by simp
    with le have sub: "time_Sub (clock w) l = clock w - l" by (rule time_Sub_exact)
    from True le wf have "wrap64 (minInterval c - (clock w - l)) = minInterval c - (clock w - l)"
      by (intro wrap64_id) (simp_all add: minInt64_def)
    with True Some sub show ?thesis
      by (simp add: rateLimitWait_def time_Now_def time_Sleep_def Let_def)
  next
    case False
    have "\<not> time_Sub (clock w) l < minInterval c"
    proof
      assume a: "time_Sub (clock w) l < minInterval c"
      from time_Sub_below [OF le a wf] a False show False by simp
    qed
    with False Some show ?thesis
      by (simp add: rateLimitWait_def time_Now_def Let_def)
  qed
qed

theorem rateLimitWait_spacing_witness:
  "minInterval (client_at 0 (100 * Millisecond)) \<le> maxInt64
   \<and> sleeps (snd (rateLimitWait (client_at 0 (100 * Millisecond)) (world0\<lparr>clock := 30000000\<rparr>))) = [70000000]
   \<and> clock (snd (rateLimitWait (client_at 0 (100 * Millisecond)) (world0\<lparr>clock := 30000000\<rparr>))) = 100000000
   \<and> lastRequestTime (fst (rateLimitWait (client_at 0 (100 * Millisecond)) (world0\<lparr>clock := 30000000\<rparr>))) = Some 100000000
   \<and> snd (rateLimitWait NewClient world0) = world0"
  using rateLimitWait_spacing [of "client_at 0 (100 * Millisecond)" "world0\<lparr>clock := 30000000\<rparr>"]
    rateLimitWait_spacing [of NewClient world0]
  by (simp add: client_at_def world0_def Millisecond_def maxInt64_def NewClient_def)

lemma check_snd:
  "snd (checkRateLimitHeaders c (Some r) w) =
     (if StatusCode r = 429 then
        (case Atoi (Header_Get r ''Retry-After'') of
           Some n \<Rightarrow> time_Sleep (wrap64 (n * Second)) w
         | None \<Rightarrow> time_Sleep (60 * Second) w)
      else w)"
  by (simp add: checkRateLimitHeaders_def Let_def Atoi_Nil split: option.splits)

lemma check_fst_status:
  "fst (checkRateLimitHeaders c (Some r) w) = fst (checkRateLimitHeaders c (Some (r\<lparr>StatusCode := s\<rparr>)) w)"
  by (simp add: checkRateLimitHeaders_def Let_def split: option.splits)

lemma retry_seconds_exact:
  assumes "0 \<le> n" and "n \<le> 9223372036"
  shows "wrap64 (n * Second) = n * Second" and "n * Second \<le> 0 \<longleftrightarrow> n = 0"
proof -
  from assms show "wrap64 (n * Second) = n * Second"
    by (intro wrap64_id) (simp_all add: Second_def minInt64_def maxInt64_def)
  from assms show "n * Second \<le> 0 \<longleftrightarrow> n = 0" by (auto simp: Second_def)
qed

lemma Atoi_date: "Atoi ''Wed, 21 Oct 2015 07:28:00 GMT'' = None"
  by (simp add: Atoi_def digit_of_def)

lemma Atoi_huge: "Atoi ''9223372037'' = Some 9223372037"
  by (simp add: Atoi_def digit_of_def minInt64_def maxInt64_def)

text \<open>
  C6, as the claim states it, fails: with status 429 and a \<^verbatim>\<open>Retry-After\<close> header that is
  present but is an HTTP date, the code sleeps the 60-second default; and with the
  header \<^verbatim>\<open>9223372037\<close> (seconds) the product with \<^verbatim>\<open>time.Second\<close> wraps to a negative
  \<^verbatim>\<open>Duration\<close>, which \<^verbatim>\<open>time.Sleep\<close> returns from at once.
\<close>

theorem retry_after_counterexample:
  "StatusCode retry_after_date = 429
   \<and> Header_Get retry_after_date ''Retry-After'' = ''Wed, 21 Oct 2015 07:28:00 GMT''
   \<and> sleeps (snd (checkRateLimitHeaders NewClient (Some retry_after_date) world0)) = [60000000000]
   \<and> StatusCode retry_after_huge = 429
   \<and> Header_Get retry_after_huge ''Retry-After'' = ''9223372037''
   \<and> sleeps (snd (checkRateLimitHeaders NewClient (Some retry_after_huge) world0)) = [- 9223372036709551616]
   \<and> clock (snd (checkRateLimitHeaders NewClient (Some retry_after_huge) world0)) = clock world0"
  by (simp add: check_snd retry_after_date_def retry_after_huge_def response_with_def Atoi_date Atoi_huge
      time_Sleep_def world0_def Second_def wrap64_def)

text \<open>
  C6, amended. For a response with status 429: when the \<^verbatim>\<open>Retry-After\<close> header parses as
  a decimal integer \<open>n\<close> of seconds with \<open>0 \<le> n \<le> 9223372036\<close>, exactly one sleep of
  \<open>n\<close> seconds is made; when the header is absent, empty or does not parse as an
  integer, exactly one sleep of the 60-second default is made. A response with another
  status makes no sleep. The rate state after the call is the one the same response
  gives with status 200: the hard stop does not touch \<open>minInterval\<close>.
\<close>

theorem throttle_stop:
  "(StatusCode r = 429 \<longrightarrow>
      (\<forall>n. Atoi (Header_Get r ''Retry-After'') = Some n \<and> 0 \<le> n \<and> n \<le> 9223372036 \<longrightarrow>
          sleeps (snd (checkRateLimitHeaders c (Some r) w)) = sleeps w @ [n * Second]
        \<and> clock (snd (checkRateLimitHeaders c (Some r) w)) =
            clock w + (if n = 0 then 0 else n * Second + int (overshoot w (length (sleeps w)))))
    \<and> (Atoi (Header_Get r ''Retry-After'') = None \<longrightarrow>
          sleeps (snd (checkRateLimitHeaders c (Some r) w)) = sleeps w @ [60 * Second]
        \<and> clock (snd (checkRateLimitHeaders c (Some r) w)) =
            clock w + 60 * Second + int (overshoot w (length (sleeps w)))))
   \<and> (StatusCode r \<noteq> 429 \<longrightarrow> snd (checkRateLimitHeaders c (Some r) w) = w)
   \<and> fst (checkRateLimitHeaders c (Some r) w) =
       fst (checkRateLimitHeaders c (Some (r\<lparr>StatusCode := 200\<rparr>)) w)"
proof -
  have sixty: "\<not> 60 * Second \<le> 0" by (simp add: Second_def)
  show ?thesis
    using check_fst_status [of c r w 200]
    by (simp add: check_snd time_Sleep_def retry_seconds_exact sixty)
qed

theorem throttle_stop_witness:
  "sleeps (snd (checkRateLimitHeaders NewClient (Some (response_with ''Retry-After'' ''3'' 429)) world0)) = [3000000000]
   \<and> clock (snd (checkRateLimitHeaders NewClient (Some (response_with ''Retry-After'' ''3'' 429)) world0)) = 3000000000
   \<and> sleeps (snd (checkRateLimitHeaders NewClient (Some (response_with ''Retry-After'' [] 429)) world0)) = [60000000000]
   \<and> snd (checkRateLimitHeaders NewClient (Some (response_with ''Retry-After'' ''3'' 200)) world0) = world0
   \<and> fst (checkRateLimitHeaders NewClient (Some (response_with ''Retry-After'' ''3'' 429)) world0) = NewClient"
  using throttle_stop [of "response_with ''Retry-After'' ''3'' 429" NewClient world0]
    throttle_stop [of "response_with ''Retry-After'' [] 429" NewClient world0]
    throttle_stop [of "response_with ''Retry-After'' ''3'' 200" NewClient world0]
  by (simp add: response_with_def Atoi_def digit_of_def minInt64_def maxInt64_def world0_def Second_def
      checkRateLimitHeaders_def)

text \<open>
  C9. When the response is nil, or when the remaining-quota header is, under the
  primary name and under the alternate name, absent or not a decimal integer, the call
  leaves the whole rate state, \<open>minInterval\<close> included, as it was. The function has no
  error result.
\<close>

theorem malformed_quota_ignored:
  assumes "resp = None \<or>
     (\<exists>r. resp = Some r
        \<and> (Header_Get r ''RateLimit-Remaining'' = [] \<or> Atoi (Header_Get r ''RateLimit-Remaining'') = None)
        \<and> (Header_Get r ''X-RateLimit-Remaining'' = [] \<or> Atoi (Header_Get r ''X-RateLimit-Remaining'') = None))"
  shows "fst (checkRateLimitHeaders c resp w) = c"
  using assms by (auto simp: checkRateLimitHeaders_def Let_def Atoi_Nil split: option.splits)

theorem malformed_quota_ignored_witness:
  "fst (checkRateLimitHeaders NewClient None world0) = NewClient
   \<and> fst (checkRateLimitHeaders NewClient (Some (response_with ''RateLimit-Remaining'' ''soon'' 200)) world0) = NewClient
   \<and> fst (checkRateLimitHeaders NewClient (Some (response_with ''X-RateLimit-Remaining'' ''1e1'' 429)) world0) = NewClient"
  using malformed_quota_ignored [of None NewClient world0]
    malformed_quota_ignored [of "Some (response_with ''RateLimit-Remaining'' ''soon'' 200)" NewClient world0]
    malformed_quota_ignored [of "Some (response_with ''X-RateLimit-Remaining'' ''1e1'' 429)" NewClient world0]
  by (simp add: response_with_def Atoi_def digit_of_def)

section \<open>Properties of the paginated fetcher\<close>

lemma requests_append [simp]: "requests (a @ b) = requests a @ requests b"
  by (simp add: requests_def)
lemma visited_append [simp]: "visited (a @ b) = visited a @ visited b"
  by (simp add: visited_def)
lemma sunk_append [simp]: "sunk (a @ b) = sunk a @ sunk b"
  by (simp add: sunk_def)
lemma filters_simps [simp]:
  "requests [] = []" "visited [] = []" "sunk [] = []"
  "requests (ListRequest opts # tr) = opts # requests tr"
  "requests (DetailRequest mr # tr) = requests tr"
  "requests (SinkCall ref # tr) = requests tr"
  "visited (ListRequest opts # tr) = visited tr"
  "visited (DetailRequest mr # tr) = mr # visited tr"
  "visited (SinkCall ref # tr) = visited tr"
  "sunk (ListRequest opts # tr) = sunk tr"
  "sunk (DetailRequest mr # tr) = sunk tr"
  "sunk (SinkCall ref # tr) = ref # sunk tr"
  by (simp_all add: requests_def visited_def sunk_def)

lemma visit_item_trace:
  "visit_item P processor projectPath mr run = (res, run') \<Longrightarrow>
   trace run' = trace run @ DetailRequest mr # map SinkCall (emitted P projectPath mr)"
  by (auto simp: visit_item_def emitted_def Let_def split: prod.splits sum.splits if_splits option.splits)

lemma visit_item_result:
  "visit_item P processor projectPath mr run = (res, run') \<Longrightarrow>
   res = (case step_error P processor projectPath hist (DetailRequest mr) of
            Some m \<Rightarrow> Some m
          | None \<Rightarrow> (case emitted P projectPath mr of
                        [] \<Rightarrow> None
                      | ref # refs \<Rightarrow> step_error P processor projectPath (sunk (trace run)) (SinkCall ref)))"
  by (auto simp: visit_item_def emitted_def Let_def split: prod.splits sum.splits if_splits option.splits)

lemma error_at_append: "i < length tr \<Longrightarrow> error_at P f p (tr @ tr') i = error_at P f p tr i"
  by (simp add: error_at_def nth_append)

lemma error_at_snoc: "error_at P f p (tr @ e # tr') (length tr) = step_error P f p (sunk tr) e"
  by (simp add: error_at_def)

lemma all_steps_ok_snoc:
  "all_steps_ok P f p (tr @ [e]) \<longleftrightarrow> all_steps_ok P f p tr \<and> step_error P f p (sunk tr) e = None"
proof -
  have "(\<forall>i < Suc (length tr). error_at P f p (tr @ [e]) i = None)
      \<longleftrightarrow> (\<forall>i < length tr. error_at P f p (tr @ [e]) i = None) \<and> error_at P f p (tr @ [e]) (length tr) = None"
    by (auto simp: less_Suc_eq)
  then show ?thesis
    by (simp add: all_steps_ok_def error_at_append error_at_snoc)
qed

lemma visit_item_ends:
  assumes "visit_item P f p mr run = (res, run')" and "all_steps_ok P f p (trace run)"
  shows "ends P f p res (trace run')"
proof -
  note tr = visit_item_trace [OF assms(1)]
  note rs = visit_item_result [OF assms(1), of "sunk (trace run)"]
  show ?thesis
  proof (cases "step_error P f p (sunk (trace run)) (DetailRequest mr)")
    case (Some m)
    then have "emitted P p mr = []" by (auto simp: emitted_def split: sum.splits)
    with Some tr rs assms(2) show ?thesis by (auto simp: ends_def)
  next
    case None
    note d = None
    show ?thesis
    proof (cases "emitted P p mr")
      case Nil
      with d tr rs assms(2) show ?thesis by (simp add: ends_def all_steps_ok_snoc)
    next
      case (Cons ref refs)
      then have refs: "refs = []" by (auto simp: emitted_def split: sum.splits if_splits)
      have ok1: "all_steps_ok P f p (trace run @ [DetailRequest mr])"
        using d assms(2) by (simp add: all_steps_ok_snoc)
      have tr': "trace run' = (trace run @ [DetailRequest mr]) @ [SinkCall ref]"
        using tr Cons refs by simp
      show ?thesis
      proof (cases res)
        case None
        with rs d Cons have "step_error P f p (sunk (trace run)) (SinkCall ref) = None" by simp
        with ok1 tr' None show ?thesis by (simp add: ends_def all_steps_ok_snoc del: append_assoc)
      next
        case (Some m)
        with rs d Cons have "step_error P f p (sunk (trace run)) (SinkCall ref) = Some m" by simp
        with ok1 tr' Some show ?thesis by (auto simp: ends_def simp del: append_assoc)
      qed
    qed
  qed
qed

lemma process_page_ends:
  "process_page P f p mrs run = (res, run') \<Longrightarrow> all_steps_ok P f p (trace run) \<Longrightarrow>
   ends P f p res (trace run')"
proof (induction mrs arbitrary: run)
  case Nil
  then show ?case by (simp add: ends_def)
next
  case (Cons mr mrs)
  obtain r1 run1 where v: "visit_item P f p mr run = (r1, run1)" by (cases "visit_item P f p mr run")
  from visit_item_ends [OF v Cons.prems(2)] have e1: "ends P f p r1 (trace run1)" .
  show ?case
  proof (cases r1)
    case None
    with v Cons.prems(1) have "process_page P f p mrs run1 = (res, run')" by simp
    moreover from e1 None have "all_steps_ok P f p (trace run1)" by (simp add: ends_def)
    ultimately show ?thesis by (rule Cons.IH)
  next
    case (Some m)
    with v Cons.prems(1) have "res = r1" "run' = run1" by simp_all
    with e1 show ?thesis by simp
  qed
qed


lemma fetch_pages_unfold:
  "\<exists>run1 run2. trace run1 = trace run @ [ListRequest opts]
     \<and> (\<forall>resp. trace (run2 resp) = trace run @ [ListRequest opts])
     \<and> (\<forall>n. fetch_pages (Suc n) P f p opts run =
       (case ListProjectMergeRequests P p opts of
          Inl err \<Rightarrow> (Returned (Some (''failed to fetch merge requests: '' @ err)), run1)
        | Inr (mrs, resp) \<Rightarrow>
            (case process_page P f p mrs (run2 resp) of
               (Some err, run3) \<Rightarrow> (Returned (Some err), run3)
             | (None, run3) \<Rightarrow>
                 if NextPage resp = 0 then (Returned None, run3)
                 else fetch_pages n P f p (opts\<lparr>Page := NextPage resp\<rparr>) run3)))"
proof -
  define c1 where "c1 = fst (rateLimitWait (client run) (world run))"
  define w1 where "w1 = snd (rateLimitWait (client run) (world run))"
  define run1 where "run1 = run\<lparr>client := c1, world := w1, trace := trace run @ [ListRequest opts]\<rparr>"
  define run2 where "run2 = (\<lambda>resp :: GitlabResponse. run1\<lparr>client := fst (checkRateLimitHeaders c1 (http_Response resp) w1),
                                         world := snd (checkRateLimitHeaders c1 (http_Response resp) w1)\<rparr>)"
  show ?thesis
    by (intro exI [of _ run1] exI [of _ run2])
       (simp add: Let_def case_prod_beta run1_def run2_def c1_def w1_def split: sum.splits)
qed

lemma fetch_pages_cases [consumes 1, case_names no_fuel list_failed page_failed last_page next_page]:
  assumes "fetch_pages n P f p opts run = (out, run')"
  obtains
    "n = 0" and "out = OutOfFuel" and "run' = run"
  | err where "ListProjectMergeRequests P p opts = Inl err"
      and "out = Returned (Some (''failed to fetch merge requests: '' @ err))"
      and "trace run' = trace run @ [ListRequest opts]"
  | mrs resp run1 m where "ListProjectMergeRequests P p opts = Inr (mrs, resp)"
      and "trace run1 = trace run @ [ListRequest opts]"
      and "process_page P f p mrs run1 = (Some m, run')" and "out = Returned (Some m)"
  | mrs resp run1 where "ListProjectMergeRequests P p opts = Inr (mrs, resp)"
      and "trace run1 = trace run @ [ListRequest opts]"
      and "process_page P f p mrs run1 = (None, run')" and "NextPage resp = 0"
      and "out = Returned None"
  | k mrs resp run1 run2 where "n = Suc k"
      and "ListProjectMergeRequests P p opts = Inr (mrs, resp)"
      and "trace run1 = trace run @ [ListRequest opts]"
      and "process_page P f p mrs run1 = (None, run2)" and "NextPage resp \<noteq> 0"
      and "fetch_pages k P f p (opts\<lparr>Page := NextPage resp\<rparr>) run2 = (out, run')"
proof (cases n)
  case 0
  with assms show thesis by (intro that(1)) simp_all
next
  case (Suc k)
  from fetch_pages_unfold [of run opts P f p]
  obtain run1 run2 where t1: "trace run1 = trace run @ [ListRequest opts]"
    and t2: "\<And>resp. trace (run2 resp) = trace run @ [ListRequest opts]"
    and unf: "\<And>n. fetch_pages (Suc n) P f p opts run =
       (case ListProjectMergeRequests P p opts of
          Inl err \<Rightarrow> (Returned (Some (''failed to fetch merge requests: '' @ err)), run1)
        | Inr (mrs, resp) \<Rightarrow>
            (case process_page P f p mrs (run2 resp) of
               (Some err, run3) \<Rightarrow> (Returned (Some err), run3)
             | (None, run3) \<Rightarrow>
                 if NextPage resp = 0 then (Returned None, run3)
                 else fetch_pages n P f p (opts\<lparr>Page := NextPage resp\<rparr>) run3))"
    by blast
  note eq = assms [unfolded Suc unf]
  show thesis
  proof (cases "ListProjectMergeRequests P p opts")
    case (Inl err)
    with eq t1 show thesis by (intro that(2) [of err]) auto
  next
    case (Inr ok)
    obtain mrs resp where ok: "ok = (mrs, resp)" by (cases ok)
    obtain r3 run3 where pp: "process_page P f p mrs (run2 resp) = (r3, run3)"
      by (cases "process_page P f p mrs (run2 resp)")
    show thesis
    proof (cases r3)
      case (Some m)
      with eq pp Inr ok t2 [of resp] show thesis
        by (intro that(3) [of mrs resp "run2 resp" m]) auto
    next
      case None
      show thesis
      proof (cases "NextPage resp = 0")
        case True
        with None eq pp Inr ok t2 [of resp] show thesis
          by (intro that(4) [of mrs resp "run2 resp"]) auto
      next
        case False
        with None eq pp Inr ok t2 [of resp] Suc show thesis
          by (intro that(5) [of k mrs resp "run2 resp" run3]) auto
      qed
    qed
  qed
qed

lemma fetch_pages_ends:
  "fetch_pages n P f p opts run = (out, run') \<Longrightarrow> all_steps_ok P f p (trace run) \<Longrightarrow>
   ends P f p (error_of out) (trace run')"
proof (induction n arbitrary: opts run)
  case 0
  then show ?case by (simp add: ends_def error_of_def)
next
  case (Suc n)
  from Suc.prems(1) show ?case
  proof (cases rule: fetch_pages_cases)
    case no_fuel
    then show ?thesis by simp
  next
    case (list_failed err)
    with Suc.prems(2) show ?thesis by (auto simp: ends_def error_of_def)
  next
    case (page_failed mrs resp run1 m)
    from page_failed(1,2) Suc.prems(2) have "all_steps_ok P f p (trace run1)"
      by (simp add: all_steps_ok_snoc)
    from process_page_ends [OF page_failed(3) this] page_failed(4) show ?thesis
      by (simp add: error_of_def)
  next
    case (last_page mrs resp run1)
    from last_page(1,2) Suc.prems(2) have "all_steps_ok P f p (trace run1)"
      by (simp add: all_steps_ok_snoc)
    from process_page_ends [OF last_page(3) this] last_page(5) show ?thesis
      by (simp add: error_of_def)
  next
    case (next_page k mrs resp run1 run2)
    from next_page(2,3) Suc.prems(2) have "all_steps_ok P f p (trace run1)"
      by (simp add: all_steps_ok_snoc)
    from process_page_ends [OF next_page(4) this] have ok2: "all_steps_ok P f p (trace run2)"
      by (simp add: ends_def)
    from next_page(1) have "k = n" by simp
    with next_page(6) have "fetch_pages n P f p (opts\<lparr>Page := NextPage resp\<rparr>) run2 = (out, run')"
      by simp
    from Suc.IH [OF this ok2] show ?thesis .
  qed
qed

lemma item_events_filters [simp]:
  "requests (concat (map (item_events P p) xs)) = []"
  "visited (concat (map (item_events P p) xs)) = xs"
  "sunk (concat (map (item_events P p) xs)) = concat (map (emitted P p) xs)"
proof -
  have a: "requests (map SinkCall rs) = []" "visited (map SinkCall rs) = []"
     "sunk (map SinkCall rs) = rs" for rs
    by (induction rs) simp_all
  show "requests (concat (map (item_events P p) xs)) = []"
    by (induction xs) (simp_all add: item_events_def a)
  show "visited (concat (map (item_events P p) xs)) = xs"
    by (induction xs) (simp_all add: item_events_def a)
  show "sunk (concat (map (item_events P p) xs)) = concat (map (emitted P p) xs)"
    by (induction xs) (simp_all add: item_events_def a)
qed

lemma process_page_shape:
  "process_page P f p mrs run = (res, run') \<Longrightarrow>
   \<exists>k \<le> length mrs. trace run' = trace run @ concat (map (item_events P p) (take k mrs))
      \<and> (res = None \<longrightarrow> k = length mrs)"
proof (induction mrs arbitrary: run)
  case Nil
  then show ?case by simp
next
  case (Cons mr mrs)
  obtain r1 run1 where v: "visit_item P f p mr run = (r1, run1)" by (cases "visit_item P f p mr run")
  from visit_item_trace [OF v] have t1: "trace run1 = trace run @ item_events P p mr"
    by (simp add: item_events_def)
  show ?case
  proof (cases r1)
    case None
    with v Cons.prems have "process_page P f p mrs run1 = (res, run')" by simp
    from Cons.IH [OF this] obtain k where k: "k \<le> length mrs"
      "trace run' = trace run1 @ concat (map (item_events P p) (take k mrs))"
      "res = None \<longrightarrow> k = length mrs" by blast
    with t1 show ?thesis by (intro exI [of _ "Suc k"]) simp
  next
    case (Some m)
    with v Cons.prems have "res = Some m" "run' = run1" by simp_all
    with t1 show ?thesis by (intro exI [of _ "Suc 0"]) simp
  qed
qed

lemma prefix_concat_map: "prefix xs ys \<Longrightarrow> prefix (concat (map g xs)) (concat (map g ys))"
  by (auto simp: prefix_def)

lemma fetch_pages_shape:
  "fetch_pages n P f p opts run = (out, run') \<Longrightarrow>
   \<exists>R V. requests (trace run') = requests (trace run) @ R
      \<and> visited (trace run') = visited (trace run) @ V
      \<and> sunk (trace run') = sunk (trace run) @ concat (map (emitted P p) V)
      \<and> (0 < n \<longrightarrow> R \<noteq> []) \<and> prefix R (cursor_chain n P p opts)
      \<and> prefix (concat (map (page_items P p) (butlast R))) V
      \<and> prefix V (concat (map (page_items P p) R))
      \<and> (out = Returned None \<longrightarrow> R = cursor_chain n P p opts \<and> V = concat (map (page_items P p) R)
            \<and> next_cursor P p (last R) = Some 0)"
proof (induction n arbitrary: opts run)
  case 0
  then show ?case by simp
next
  case (Suc n)
  from Suc.prems show ?case
  proof (cases rule: fetch_pages_cases)
    case no_fuel
    then show ?thesis by simp
  next
    case (list_failed err)
    then show ?thesis
      by (intro exI [of _ "[opts]"] exI [of _ "[]"]) simp
  next
    case (page_failed mrs resp run1 m)
    from process_page_shape [OF page_failed(3)] obtain k where
      k: "trace run' = trace run1 @ concat (map (item_events P p) (take k mrs))" by blast
    have "prefix (take k mrs) mrs" by (rule take_is_prefix)
    with page_failed k show ?thesis
      by (intro exI [of _ "[opts]"] exI [of _ "take k mrs"]) (simp add: page_items_def)
  next
    case (last_page mrs resp run1)
    from process_page_shape [OF last_page(3)]
    have k: "trace run' = trace run1 @ concat (map (item_events P p) mrs)" by auto
    with last_page show ?thesis
      by (intro exI [of _ "[opts]"] exI [of _ mrs]) (simp add: page_items_def next_cursor_def)
  next
    case (next_page k mrs resp run1 run2)
    from next_page(1) have kn: "k = n" by simp
    from process_page_shape [OF next_page(4)]
    have tr2: "trace run2 = trace run1 @ concat (map (item_events P p) mrs)" by auto
    from Suc.IH [OF next_page(6) [unfolded kn]] obtain R V where
      R: "requests (trace run') = requests (trace run2) @ R"
      and V: "visited (trace run') = visited (trace run2) @ V"
      and S: "sunk (trace run') = sunk (trace run2) @ concat (map (emitted P p) V)"
      and pR: "prefix R (cursor_chain n P p (opts\<lparr>Page := NextPage resp\<rparr>))"
      and lo: "prefix (concat (map (page_items P p) (butlast R))) V"
      and pV: "prefix V (concat (map (page_items P p) R))"
      and fin: "out = Returned None \<longrightarrow> R = cursor_chain n P p (opts\<lparr>Page := NextPage resp\<rparr>)
                  \<and> V = concat (map (page_items P p) R) \<and> next_cursor P p (last R) = Some 0"
      by blast
    have items: "page_items P p opts = mrs" using next_page(2) by (simp add: page_items_def)
    have chain: "cursor_chain (Suc n) P p opts = opts # cursor_chain n P p (opts\<lparr>Page := NextPage resp\<rparr>)"
      using next_page(2,5) by simp
    have fin_ne: "R \<noteq> []" if "out = Returned None"
    proof
      assume "R = []"
      with that fin have "cursor_chain n P p (opts\<lparr>Page := NextPage resp\<rparr>) = []" by simp
      then have "n = 0" by (cases n) simp_all
      with next_page(6) kn that show False by simp
    qed
    show ?thesis
    proof (intro exI [of _ "opts # R"] exI [of _ "mrs @ V"] conjI impI)
      show "requests (trace run') = requests (trace run) @ opts # R"
        using R tr2 next_page(3) by simp
      show "visited (trace run') = visited (trace run) @ mrs @ V"
        using V tr2 next_page(3) by simp
      show "sunk (trace run') = sunk (trace run) @ concat (map (emitted P p) (mrs @ V))"
        using S tr2 next_page(3) by simp
      show "opts # R \<noteq> []" by simp
      show "prefix (opts # R) (cursor_chain (Suc n) P p opts)"
        using pR chain by simp
      show "prefix (concat (map (page_items P p) (butlast (opts # R)))) (mrs @ V)"
        using lo items by (cases "R = []") simp_all
      show "prefix (mrs @ V) (concat (map (page_items P p) (opts # R)))"
        using pV items by simp
      show "opts # R = cursor_chain (Suc n) P p opts" if "out = Returned None"
        using that fin chain by simp
      show "mrs @ V = concat (map (page_items P p) (opts # R))" if "out = Returned None"
        using that fin items by simp
      show "next_cursor P p (last (opts # R)) = Some 0" if "out = Returned None"
      proof -
        from that fin have "next_cursor P p (last R) = Some 0" by blast
        with fin_ne [OF that] show ?thesis by simp
      qed
    qed
  qed
qed

lemma cursor_chain_options:
  "o' \<in> set (cursor_chain n P p opts) \<Longrightarrow> PerPage o' = PerPage opts \<and> State o' = State opts"
proof (induction n arbitrary: opts)
  case 0
  then show ?case by simp
next
  case (Suc n)
  then show ?case by (auto split: sum.splits if_splits)
qed

lemma cursor_chain_hd: "cursor_chain n P p opts \<noteq> [] \<Longrightarrow> hd (cursor_chain n P p opts) = opts"
  by (cases n) simp_all

lemma cursor_chain_link:
  "Suc i < length (cursor_chain n P p opts) \<Longrightarrow>
   next_cursor P p (cursor_chain n P p opts ! i) = Some (Page (cursor_chain n P p opts ! Suc i))
   \<and> Page (cursor_chain n P p opts ! Suc i) \<noteq> 0"
proof (induction n arbitrary: opts i)
  case 0
  then show ?case by simp
next
  case (Suc n)
  show ?case
  proof (cases "ListProjectMergeRequests P p opts")
    case (Inl err)
    with Suc.prems show ?thesis by simp
  next
    case (Inr ok)
    obtain mrs resp where ok: "ok = (mrs, resp)" by (cases ok)
    show ?thesis
    proof (cases "NextPage resp = 0")
      case True
      with Inr ok Suc.prems show ?thesis by simp
    next
      case False
      let ?o = "opts\<lparr>Page := NextPage resp\<rparr>"
      have chain: "cursor_chain (Suc n) P p opts = opts # cursor_chain n P p ?o"
        using Inr ok False by simp
      have ne: "cursor_chain n P p ?o \<noteq> []" using Suc.prems chain by auto
      show ?thesis
      proof (cases i)
        case 0
        have "cursor_chain n P p ?o ! 0 = ?o"
          using cursor_chain_hd [OF ne] ne by (simp add: hd_conv_nth)
        with 0 chain Inr ok False show ?thesis by (simp add: next_cursor_def)
      next
        case (Suc j)
        with Suc.prems chain have "Suc j < length (cursor_chain n P p ?o)" by simp
        from Suc.IH [OF this] Suc chain show ?thesis by simp
      qed
    qed
  qed
qed

lemma fetch_pages_total:
  "cursor_chain n P p opts \<noteq> [] \<Longrightarrow>
   next_cursor P p (last (cursor_chain n P p opts)) = Some 0
     \<or> next_cursor P p (last (cursor_chain n P p opts)) = None \<Longrightarrow>
   fst (fetch_pages n P f p opts run) \<noteq> OutOfFuel"
proof (induction n arbitrary: opts run)
  case 0
  then show ?case by simp
next
  case (Suc n)
  from fetch_pages_unfold [of run opts P f p]
  obtain run1 run2 where unf: "\<And>n. fetch_pages (Suc n) P f p opts run =
       (case ListProjectMergeRequests P p opts of
          Inl err \<Rightarrow> (Returned (Some (''failed to fetch merge requests: '' @ err)), run1)
        | Inr (mrs, resp) \<Rightarrow>
            (case process_page P f p mrs (run2 resp) of
               (Some err, run3) \<Rightarrow> (Returned (Some err), run3)
             | (None, run3) \<Rightarrow>
                 if NextPage resp = 0 then (Returned None, run3)
                 else fetch_pages n P f p (opts\<lparr>Page := NextPage resp\<rparr>) run3))"
    by blast
  show ?case
  proof (cases "ListProjectMergeRequests P p opts")
    case (Inl err)
    then show ?thesis by (simp add: unf del: fetch_pages.simps)
  next
    case (Inr ok)
    obtain mrs resp where ok: "ok = (mrs, resp)" by (cases ok)
    obtain r3 run3 where pp: "process_page P f p mrs (run2 resp) = (r3, run3)"
      by (cases "process_page P f p mrs (run2 resp)")
    show ?thesis
    proof (cases "r3 = None \<and> NextPage resp \<noteq> 0")
      case False
      with Inr ok pp show ?thesis by (cases r3) (auto simp: unf simp del: fetch_pages.simps)
    next
      case True
      let ?o = "opts\<lparr>Page := NextPage resp\<rparr>"
      have chain: "cursor_chain (Suc n) P p opts = opts # cursor_chain n P p ?o"
        using Inr ok True by simp
      have ne: "cursor_chain n P p ?o \<noteq> []"
      proof
        assume "cursor_chain n P p ?o = []"
        with chain Suc.prems(2) Inr ok True show False by (simp add: next_cursor_def)
      qed
      with chain Suc.prems(2)
      have "next_cursor P p (last (cursor_chain n P p ?o)) = Some 0
          \<or> next_cursor P p (last (cursor_chain n P p ?o)) = None" by simp
      from Suc.IH [OF ne this, of run3] Inr ok pp True show ?thesis
        by (simp add: unf del: fetch_pages.simps)
    qed
  qed
qed

lemma fetch_pages_more_fuel:
  "fst (fetch_pages n P f p opts run) = Returned res \<Longrightarrow>
   fetch_pages (n + k) P f p opts run = fetch_pages n P f p opts run"
proof (induction n arbitrary: opts run)
  case 0
  then show ?case by simp
next
  case (Suc n)
  from fetch_pages_unfold [of run opts P f p]
  obtain run1 run2 where unf: "\<And>n. fetch_pages (Suc n) P f p opts run =
       (case ListProjectMergeRequests P p opts of
          Inl err \<Rightarrow> (Returned (Some (''failed to fetch merge requests: '' @ err)), run1)
        | Inr (mrs, resp) \<Rightarrow>
            (case process_page P f p mrs (run2 resp) of
               (Some err, run3) \<Rightarrow> (Returned (Some err), run3)
             | (None, run3) \<Rightarrow>
                 if NextPage resp = 0 then (Returned None, run3)
                 else fetch_pages n P f p (opts\<lparr>Page := NextPage resp\<rparr>) run3))"
    by blast
  show ?case
  proof (cases "ListProjectMergeRequests P p opts")
    case (Inl err)
    then show ?thesis by (simp add: unf del: fetch_pages.simps)
  next
    case (Inr ok)
    obtain mrs resp where ok: "ok = (mrs, resp)" by (cases ok)
    obtain r3 run3 where pp: "process_page P f p mrs (run2 resp) = (r3, run3)"
      by (cases "process_page P f p mrs (run2 resp)")
    show ?thesis
    proof (cases "r3 = None \<and> NextPage resp \<noteq> 0")
      case False
      with Inr ok pp show ?thesis by (cases r3) (simp_all add: unf del: fetch_pages.simps)
    next
      case True
      with Inr ok pp Suc.prems
      have "fst (fetch_pages n P f p (opts\<lparr>Page := NextPage resp\<rparr>) run3) = Returned res"
        by (simp add: unf del: fetch_pages.simps)
      from Suc.IH [OF this] Inr ok pp True show ?thesis by (simp add: unf del: fetch_pages.simps)
    qed
  qed
qed

lemma fetch_returned:
  "FetchMergeRequestRefs fuel P c w p f = Some (res, run') \<longleftrightarrow>
   fetch_pages fuel P f p \<lparr>Page = 0, PerPage = 100, State = Some ''all''\<rparr>
     \<lparr>client = c, world = w, trace = []\<rparr> = (Returned res, run')"
  by (auto simp: FetchMergeRequestRefs_def split: prod.splits Outcome.splits)

lemma count_list_distinct: "distinct xs \<Longrightarrow> x \<in> set xs \<Longrightarrow> count_list xs x = 1"
  by (induction xs) (auto simp: count_list_0_iff)

lemma emitted_cases:
  "emitted P p mr = [] \<or>
   (\<exists>d resp. GetMergeRequest P p (mr_IID mr) = Inr (d, resp) \<and> DiffRefs_HeadSha d \<noteq> []
      \<and> emitted P p mr = [\<lparr>ID = mr_ID mr, IID = mr_IID mr, HeadSHA = DiffRefs_HeadSha d\<rparr>])"
  by (auto simp: emitted_def split: sum.splits)

lemma fetch_sunk:
  assumes "FetchMergeRequestRefs fuel P c w p f = Some (res, run')"
  shows "sunk (trace run') = concat (map (emitted P p) (visited (trace run')))"
proof -
  from fetch_pages_shape [OF assms [unfolded fetch_returned]]
  show ?thesis by auto
qed

lemmas run_simps = FetchMergeRequestRefs_def fetch_progress_def visit_item_def rateLimitWait_def checkRateLimitHeaders_def
  Let_def time_Now_def time_Sub_def time_Sleep_def wrap64_def NewClient_def world0_def
  Millisecond_def Second_def minInt64_def maxInt64_def response_with_def ok_response_def
  item_def detail_def accept_all_def reject_iid_def result_of_def trace_of_def
  numeral_nat page_opts_def

lemma returned:
  "result_of x = Some res \<Longrightarrow> \<exists>run'. x = Some (res, run') \<and> trace run' = trace_of x"
  by (cases x) (auto simp: result_of_def trace_of_def)

lemma two_pages_trace:
  "trace_of (FetchMergeRequestRefs 5 two_pages NewClient world0 ''g/p'' accept_all) =
     [ListRequest (page_opts 0),
      DetailRequest (item 101 1), SinkCall \<lparr>ID = 101, IID = 1, HeadSHA = ''abc''\<rparr>,
      DetailRequest (item 102 2),
      ListRequest (page_opts 2),
      DetailRequest (item 103 3), SinkCall \<lparr>ID = 103, IID = 3, HeadSHA = ''abc''\<rparr>,
      DetailRequest (item 104 4), SinkCall \<lparr>ID = 104, IID = 4, HeadSHA = ''abc''\<rparr>]"
  by (simp add: run_simps two_pages_def)

lemma two_pages_result:
  "result_of (FetchMergeRequestRefs 5 two_pages NewClient world0 ''g/p'' accept_all) = Some None"
  by (simp add: run_simps two_pages_def)

text \<open>
  C3, as the claim states it, fails on the id: the reference handed to the sink takes
  \<open>ID\<close> and \<open>IID\<close> from the listed item, \<^verbatim>\<open>mr.ID\<close> and \<^verbatim>\<open>mr.IID\<close>, not from the detail
  record. On a platform whose detail record for item 7 carries id 999 while the listing
  carries id 1, the sink receives id 1.
\<close>

theorem detail_id_counterexample:
  "trace_of (FetchMergeRequestRefs 5 mismatched NewClient world0 ''g/p'' accept_all) =
     [ListRequest (page_opts 0), DetailRequest (item 1 7), SinkCall \<lparr>ID = 1, IID = 7, HeadSHA = ''abc''\<rparr>]
   \<and> GetMergeRequest mismatched ''g/p'' 7 = Inr (detail 999 7 ''abc'', ok_response 0)
   \<and> detail_ID (detail 999 7 ''abc'') = 999
   \<and> ID \<lparr>ID = 1, IID = 7, HeadSHA = ''abc''\<rparr> \<noteq> detail_ID (detail 999 7 ''abc'')"
  by (simp add: run_simps mismatched_def)

text \<open>
  C3, amended. In every run that returns, the sink is invoked for a visited item whose
  detail request succeeded if and only if the head hash of the detail record is not
  empty; the references the sink is invoked with are, in order, exactly those of the
  visited items with a non-empty head hash, and each has \<open>ID\<close> and \<open>IID\<close> of the listed
  item and \<open>HeadSHA\<close> of that item's detail record.
\<close>

theorem sink_offered_eligible_items:
  assumes "FetchMergeRequestRefs fuel P c w p f = Some (res, run')"
  shows "sunk (trace run') = concat (map (emitted P p) (visited (trace run')))
    \<and> (\<forall>mr \<in> set (visited (trace run')). \<forall>d resp.
          GetMergeRequest P p (mr_IID mr) = Inr (d, resp) \<longrightarrow>
            (DiffRefs_HeadSha d \<noteq> [] \<longleftrightarrow>
               \<lparr>ID = mr_ID mr, IID = mr_IID mr, HeadSHA = DiffRefs_HeadSha d\<rparr> \<in> set (sunk (trace run'))))
    \<and> (\<forall>ref \<in> set (sunk (trace run')). HeadSHA ref \<noteq> [] \<and>
          (\<exists>mr \<in> set (visited (trace run')). \<exists>d resp.
             GetMergeRequest P p (mr_IID mr) = Inr (d, resp)
             \<and> ref = \<lparr>ID = mr_ID mr, IID = mr_IID mr, HeadSHA = DiffRefs_HeadSha d\<rparr>))"
proof -
  note eq = fetch_sunk [OF assms]
  have bwd: "HeadSHA ref \<noteq> [] \<and>
          (\<exists>mr \<in> set (visited (trace run')). \<exists>d resp.
             GetMergeRequest P p (mr_IID mr) = Inr (d, resp)
             \<and> ref = \<lparr>ID = mr_ID mr, IID = mr_IID mr, HeadSHA = DiffRefs_HeadSha d\<rparr>)"
    if "ref \<in> set (sunk (trace run'))" for ref
  proof -
    from that eq obtain mr where mr: "mr \<in> set (visited (trace run'))" "ref \<in> set (emitted P p mr)"
      by auto
    with emitted_cases [of P p mr] obtain d resp where
      d: "GetMergeRequest P p (mr_IID mr) = Inr (d, resp)" "DiffRefs_HeadSha d \<noteq> []"
         "ref = \<lparr>ID = mr_ID mr, IID = mr_IID mr, HeadSHA = DiffRefs_HeadSha d\<rparr>"
      by auto
    from d(2,3) have "HeadSHA ref \<noteq> []" by simp
    moreover from mr(1) d(1,3) have "\<exists>mr \<in> set (visited (trace run')). \<exists>d resp.
             GetMergeRequest P p (mr_IID mr) = Inr (d, resp)
             \<and> ref = \<lparr>ID = mr_ID mr, IID = mr_IID mr, HeadSHA = DiffRefs_HeadSha d\<rparr>"
      by blast
    ultimately show ?thesis by (rule conjI)
  qed
  have fwd: "DiffRefs_HeadSha d \<noteq> [] \<longleftrightarrow>
               \<lparr>ID = mr_ID mr, IID = mr_IID mr, HeadSHA = DiffRefs_HeadSha d\<rparr> \<in> set (sunk (trace run'))"
    if "mr \<in> set (visited (trace run'))" "GetMergeRequest P p (mr_IID mr) = Inr (d, resp)" for mr d resp
  proof
    assume "DiffRefs_HeadSha d \<noteq> []"
    with that(2) have "emitted P p mr = [\<lparr>ID = mr_ID mr, IID = mr_IID mr, HeadSHA = DiffRefs_HeadSha d\<rparr>]"
      by (simp add: emitted_def)
    then have "\<lparr>ID = mr_ID mr, IID = mr_IID mr, HeadSHA = DiffRefs_HeadSha d\<rparr> \<in> set (emitted P p mr)"
      by simp
    with that(1) have "\<lparr>ID = mr_ID mr, IID = mr_IID mr, HeadSHA = DiffRefs_HeadSha d\<rparr>
        \<in> set (concat (map (emitted P p) (visited (trace run'))))"
      unfolding set_concat by (intro UN_I [of "emitted P p mr"]) simp_all
    with eq show "\<lparr>ID = mr_ID mr, IID = mr_IID mr, HeadSHA = DiffRefs_HeadSha d\<rparr> \<in> set (sunk (trace run'))"
      by simp
  next
    assume "\<lparr>ID = mr_ID mr, IID = mr_IID mr, HeadSHA = DiffRefs_HeadSha d\<rparr> \<in> set (sunk (trace run'))"
    from bwd [OF this] show "DiffRefs_HeadSha d \<noteq> []" by simp
  qed
  from eq bwd fwd show ?thesis by blast
qed

theorem sink_offered_eligible_items_witness:
  "sunk (trace_of (FetchMergeRequestRefs 5 two_pages NewClient world0 ''g/p'' accept_all)) =
     [\<lparr>ID = 101, IID = 1, HeadSHA = ''abc''\<rparr>, \<lparr>ID = 103, IID = 3, HeadSHA = ''abc''\<rparr>,
      \<lparr>ID = 104, IID = 4, HeadSHA = ''abc''\<rparr>]
   \<and> visited (trace_of (FetchMergeRequestRefs 5 two_pages NewClient world0 ''g/p'' accept_all)) =
     [item 101 1, item 102 2, item 103 3, item 104 4]
   \<and> GetMergeRequest two_pages ''g/p'' 2 = Inr (detail 102 2 [], ok_response 0)
   \<and> emitted two_pages ''g/p'' (item 102 2) = []"
proof -
  from returned [OF two_pages_result] obtain run' where
    run: "FetchMergeRequestRefs 5 two_pages NewClient world0 ''g/p'' accept_all = Some (None, run')"
    and tr: "trace run' = trace_of (FetchMergeRequestRefs 5 two_pages NewClient world0 ''g/p'' accept_all)"
    by blast
  from sink_offered_eligible_items [OF run]
  have "sunk (trace run') = concat (map (emitted two_pages ''g/p'') (visited (trace run')))" by blast
  then show ?thesis
    unfolding tr two_pages_trace
    by (simp add: emitted_def two_pages_def item_def detail_def)
qed

lemma broken_trace:
  "trace_of (FetchMergeRequestRefs 5 two_pages_broken NewClient world0 ''g/p'' accept_all) =
     [ListRequest (page_opts 0),
      DetailRequest (item 101 1), SinkCall \<lparr>ID = 101, IID = 1, HeadSHA = ''abc''\<rparr>,
      DetailRequest (item 102 2),
      ListRequest (page_opts 2),
      DetailRequest (item 103 3)]"
  by (simp add: run_simps two_pages_broken_def two_pages_def)

lemma broken_result:
  "result_of (FetchMergeRequestRefs 5 two_pages_broken NewClient world0 ''g/p'' accept_all) =
     Some (Some ''failed to fetch merge request 3: connection reset'')"
  by (simp add: run_simps two_pages_broken_def two_pages_def Itoa_def digits_of.simps digit_char_def)

lemma rejected_trace:
  "trace_of (FetchMergeRequestRefs 5 two_pages NewClient world0 ''g/p'' (reject_iid 3)) =
     [ListRequest (page_opts 0),
      DetailRequest (item 101 1), SinkCall \<lparr>ID = 101, IID = 1, HeadSHA = ''abc''\<rparr>,
      DetailRequest (item 102 2),
      ListRequest (page_opts 2),
      DetailRequest (item 103 3), SinkCall \<lparr>ID = 103, IID = 3, HeadSHA = ''abc''\<rparr>]"
  by (simp add: run_simps two_pages_def)

lemma rejected_result:
  "result_of (FetchMergeRequestRefs 5 two_pages NewClient world0 ''g/p'' (reject_iid 3)) =
     Some (Some ''failed to process merge request 3: disk full'')"
  by (simp add: run_simps two_pages_def Itoa_def digits_of.simps digit_char_def)

text \<open>
  C4, as the claim states it, fails on the page: a failed listing request is wrapped as
  \<^verbatim>\<open>failed to fetch merge requests: ...\<close> with no page in it. Two runs whose listing fails
  with the same platform error, one on the first page and one on the second, return the
  same error.
\<close>

theorem listing_error_counterexample:
  "result_of (FetchMergeRequestRefs 5 first_page_down NewClient world0 ''g/p'' accept_all) =
     Some (Some ''failed to fetch merge requests: GET https://gitlab.com/api/v4/projects/g/p/merge_requests: 500'')
   \<and> result_of (FetchMergeRequestRefs 5 second_page_down NewClient world0 ''g/p'' accept_all) =
     Some (Some ''failed to fetch merge requests: GET https://gitlab.com/api/v4/projects/g/p/merge_requests: 500'')
   \<and> last (trace_of (FetchMergeRequestRefs 5 first_page_down NewClient world0 ''g/p'' accept_all)) =
       ListRequest (page_opts 0)
   \<and> last (trace_of (FetchMergeRequestRefs 5 second_page_down NewClient world0 ''g/p'' accept_all)) =
       ListRequest (page_opts 2)
   \<and> page_opts 0 \<noteq> page_opts 2"
  by (simp add: run_simps first_page_down_def second_page_down_def)

lemma last_requests:
  "tr \<noteq> [] \<Longrightarrow> last tr = ListRequest opts \<Longrightarrow>
   requests tr \<noteq> [] \<and> last (requests tr) = opts"
  by (cases tr rule: rev_cases) simp_all

lemma later_down_trace:
  "trace (fetch_progress 5 later_page_down NewClient world0 ''g/p'' accept_all) =
     [ListRequest (page_opts 0),
      DetailRequest (item 101 1), SinkCall \<lparr>ID = 101, IID = 1, HeadSHA = ''abc''\<rparr>,
      DetailRequest (item 102 2),
      ListRequest (page_opts 2)]"
  by (simp add: run_simps later_page_down_def two_pages_def)

lemma broken_progress:
  "trace (fetch_progress 5 two_pages_broken NewClient world0 ''g/p'' accept_all) =
     [ListRequest (page_opts 0),
      DetailRequest (item 101 1), SinkCall \<lparr>ID = 101, IID = 1, HeadSHA = ''abc''\<rparr>,
      DetailRequest (item 102 2),
      ListRequest (page_opts 2),
      DetailRequest (item 103 3)]"
  by (simp add: run_simps two_pages_broken_def two_pages_def)

text \<open>
  C4, amended. Let \<open>tr\<close> be the steps a call has made when it returns or the fuel is
  spent. No step before the last one failed, so nothing follows a failed step. When the
  last step failed the call has returned, with that step's error: the platform's or the
  sink's error wrapped with a fixed prefix, which for a detail request or a sink
  invocation names the item's \<open>IID\<close> and for a listing request names no page. A call
  that returns has made at least one step and returns the outcome of its last step. The
  sink has been invoked for every eligible item visited, in the platform's order; the
  pages before the last listing request have been visited in full, the last one up to
  the failing item, and when a listing request failed exactly the pages before it have
  been visited. A call whose cursor chain ends in a failing listing request returns an
  error whatever the sink does.
\<close>

theorem fetch_fails_fast:
  assumes "tr = trace (fetch_progress fuel P c w p f)"
  shows "(\<forall>i. Suc i < length tr \<longrightarrow> error_at P f p tr i = None)
    \<and> (\<forall>m. tr \<noteq> [] \<and> error_at P f p tr (length tr - 1) = Some m \<longrightarrow>
          FetchMergeRequestRefs fuel P c w p f = Some (Some m, fetch_progress fuel P c w p f))
    \<and> (\<forall>res run'. FetchMergeRequestRefs fuel P c w p f = Some (res, run') \<longrightarrow>
          run' = fetch_progress fuel P c w p f \<and> tr \<noteq> []
          \<and> res = error_at P f p tr (length tr - 1))
    \<and> (\<forall>m. tr \<noteq> [] \<and> error_at P f p tr (length tr - 1) = Some m \<longrightarrow>
          (\<exists>err. (\<exists>opts. last tr = ListRequest opts
                      \<and> ListProjectMergeRequests P p opts = Inl err
                      \<and> m = ''failed to fetch merge requests: '' @ err)
               \<or> (\<exists>mr. last tr = DetailRequest mr
                      \<and> GetMergeRequest P p (mr_IID mr) = Inl err
                      \<and> m = ''failed to fetch merge request '' @ Itoa (mr_IID mr) @ '': '' @ err)
               \<or> (\<exists>ref. last tr = SinkCall ref
                      \<and> f (sunk (butlast tr)) ref = Some err
                      \<and> m = ''failed to process merge request '' @ Itoa (IID ref) @ '': '' @ err)))
    \<and> sunk tr = concat (map (emitted P p) (visited tr))
    \<and> prefix (requests tr) (cursor_chain fuel P p \<lparr>Page = 0, PerPage = 100, State = Some ''all''\<rparr>)
    \<and> prefix (concat (map (page_items P p) (butlast (requests tr)))) (visited tr)
    \<and> prefix (visited tr) (concat (map (page_items P p) (requests tr)))
    \<and> (\<forall>opts err. tr \<noteq> [] \<and> last tr = ListRequest opts
          \<and> ListProjectMergeRequests P p opts = Inl err \<longrightarrow>
          visited tr = concat (map (page_items P p) (butlast (requests tr))))
    \<and> (cursor_chain fuel P p \<lparr>Page = 0, PerPage = 100, State = Some ''all''\<rparr> \<noteq> []
        \<and> next_cursor P p (last (cursor_chain fuel P p \<lparr>Page = 0, PerPage = 100, State = Some ''all''\<rparr>)) = None
        \<longrightarrow> (\<exists>m. FetchMergeRequestRefs fuel P c w p f = Some (Some m, fetch_progress fuel P c w p f)))"
proof -
  let ?o = "\<lparr>Page = 0, PerPage = 100, State = Some ''all''\<rparr>"
  let ?run = "\<lparr>client = c, world = w, trace = []\<rparr>"
  obtain out run' where run: "fetch_pages fuel P f p ?o ?run = (out, run')"
    by (cases "fetch_pages fuel P f p ?o ?run")
  then have prog: "fetch_progress fuel P c w p f = run'" by (simp add: fetch_progress_def)
  with assms have tr: "tr = trace run'" by simp
  have call: "FetchMergeRequestRefs fuel P c w p f = (case out of OutOfFuel \<Rightarrow> None | Returned r \<Rightarrow> Some (r, run'))"
    using run by (simp add: FetchMergeRequestRefs_def)
  from fetch_pages_shape [OF run] obtain R V where
    R: "requests tr = R" and V: "visited tr = V"
    and S: "sunk tr = concat (map (emitted P p) V)"
    and ne: "0 < fuel \<longrightarrow> R \<noteq> []"
    and pR: "prefix R (cursor_chain fuel P p ?o)"
    and lo: "prefix (concat (map (page_items P p) (butlast R))) V"
    and pV: "prefix V (concat (map (page_items P p) R))"
    and fin: "out = Returned None \<longrightarrow> R = cursor_chain fuel P p ?o \<and> next_cursor P p (last R) = Some 0"
    unfolding tr by auto
  have "all_steps_ok P f p []" by (simp add: all_steps_ok_def)
  with fetch_pages_ends [OF run] have e: "ends P f p (error_of out) tr" by (simp add: tr)
  have last_eq: "tr \<noteq> [] \<longrightarrow> error_of out = error_at P f p tr (length tr - 1)"
  proof (cases "error_of out")
    case None
    with e show ?thesis by (simp add: ends_def all_steps_ok_def)
  next
    case (Some m)
    with e obtain tr0 ev where "tr = tr0 @ [ev]" "step_error P f p (sunk tr0) ev = Some m"
      by (auto simp: ends_def)
    with Some show ?thesis by (simp add: error_at_snoc)
  qed
  have before: "\<forall>i. Suc i < length tr \<longrightarrow> error_at P f p tr i = None"
  proof (cases "error_of out")
    case None
    with e show ?thesis by (simp add: ends_def all_steps_ok_def)
  next
    case (Some m)
    with e obtain tr0 ev where "tr = tr0 @ [ev]" "all_steps_ok P f p tr0"
      by (auto simp: ends_def)
    then show ?thesis by (simp add: all_steps_ok_def error_at_append)
  qed
  have msg: "step_error P f p (sunk (butlast tr)) (last tr) = Some m"
    if "tr \<noteq> []" "error_at P f p tr (length tr - 1) = Some m" for m
  proof -
    from that last_eq have "error_of out = Some m" by simp
    with e show ?thesis by (auto simp: ends_def)
  qed
  have returns: "FetchMergeRequestRefs fuel P c w p f = Some (Some m, fetch_progress fuel P c w p f)"
    if "tr \<noteq> []" "error_at P f p tr (length tr - 1) = Some m" for m
  proof -
    from that last_eq have "error_of out = Some m" by simp
    then have "out = Returned (Some m)"
      by (auto simp: error_of_def split: Outcome.splits option.splits)
    with call prog show ?thesis by simp
  qed
  have returned: "run' = fetch_progress fuel P c w p f \<and> tr \<noteq> [] \<and> res = error_at P f p tr (length tr - 1)"
    if "FetchMergeRequestRefs fuel P c w p f = Some (res, r)" "r = run'" for res r
  proof -
    from that call have out: "out = Returned res" by (cases out) simp_all
    then have "fuel \<noteq> 0" using run by (cases fuel) auto
    with ne R have tne: "tr \<noteq> []" by auto
    from out have "error_of out = res" by (cases res) (simp_all add: error_of_def)
    with last_eq tne prog show ?thesis by simp
  qed
  have explicit: "\<exists>err. (\<exists>opts. last tr = ListRequest opts
                      \<and> ListProjectMergeRequests P p opts = Inl err
                      \<and> m = ''failed to fetch merge requests: '' @ err)
               \<or> (\<exists>mr. last tr = DetailRequest mr
                      \<and> GetMergeRequest P p (mr_IID mr) = Inl err
                      \<and> m = ''failed to fetch merge request '' @ Itoa (mr_IID mr) @ '': '' @ err)
               \<or> (\<exists>ref. last tr = SinkCall ref
                      \<and> f (sunk (butlast tr)) ref = Some err
                      \<and> m = ''failed to process merge request '' @ Itoa (IID ref) @ '': '' @ err)"
    if "tr \<noteq> []" "error_at P f p tr (length tr - 1) = Some m" for m
  proof -
    note s = msg [OF that]
    show ?thesis
    proof (cases "last tr")
      case (ListRequest opts)
      with s show ?thesis by (auto split: sum.splits)
    next
      case (DetailRequest mr)
      with s show ?thesis by (auto split: sum.splits)
    next
      case (SinkCall ref)
      with s show ?thesis by (auto split: option.splits)
    qed
  qed
  have listing: "visited tr = concat (map (page_items P p) (butlast (requests tr)))"
    if "tr \<noteq> []" "last tr = ListRequest opts" "ListProjectMergeRequests P p opts = Inl err" for opts err
  proof -
    from last_requests [OF that(1,2)] R have Rne: "R \<noteq> []" and l: "last R = opts" by simp_all
    from that(3) l have "page_items P p (last R) = []" by (simp add: page_items_def)
    with Rne have "concat (map (page_items P p) R) = concat (map (page_items P p) (butlast R))"
      by (cases R rule: rev_cases) simp_all
    with pV lo have "V = concat (map (page_items P p) (butlast R))"
      by (simp add: prefix_order.antisym)
    with R V show ?thesis by simp
  qed
  have total: "\<exists>m. FetchMergeRequestRefs fuel P c w p f = Some (Some m, fetch_progress fuel P c w p f)"
    if "cursor_chain fuel P p ?o \<noteq> []" "next_cursor P p (last (cursor_chain fuel P p ?o)) = None"
  proof -
    from fetch_pages_total [OF that(1), of f ?run] that(2) run have "out \<noteq> OutOfFuel" by simp
    moreover from fin that(2) have "out \<noteq> Returned None" by auto
    ultimately obtain m where "out = Returned (Some m)"
      by (cases out) auto
    with call prog show ?thesis by simp
  qed
  have A: "\<forall>m. tr \<noteq> [] \<and> error_at P f p tr (length tr - 1) = Some m \<longrightarrow>
          FetchMergeRequestRefs fuel P c w p f = Some (Some m, fetch_progress fuel P c w p f)"
    using returns by blast
  have B: "\<forall>res r. FetchMergeRequestRefs fuel P c w p f = Some (res, r) \<longrightarrow>
          r = fetch_progress fuel P c w p f \<and> tr \<noteq> [] \<and> res = error_at P f p tr (length tr - 1)"
  proof (intro allI impI)
    fix res r
    assume a: "FetchMergeRequestRefs fuel P c w p f = Some (res, r)"
    with call have "r = run'" by (cases out) simp_all
    from returned [OF a this] this show "r = fetch_progress fuel P c w p f \<and> tr \<noteq> []
        \<and> res = error_at P f p tr (length tr - 1)" by simp
  qed
  have C: "\<forall>m. tr \<noteq> [] \<and> error_at P f p tr (length tr - 1) = Some m \<longrightarrow>
          (\<exists>err. (\<exists>opts. last tr = ListRequest opts
                      \<and> ListProjectMergeRequests P p opts = Inl err
                      \<and> m = ''failed to fetch merge requests: '' @ err)
               \<or> (\<exists>mr. last tr = DetailRequest mr
                      \<and> GetMergeRequest P p (mr_IID mr) = Inl err
                      \<and> m = ''failed to fetch merge request '' @ Itoa (mr_IID mr) @ '': '' @ err)
               \<or> (\<exists>ref. last tr = SinkCall ref
                      \<and> f (sunk (butlast tr)) ref = Some err
                      \<and> m = ''failed to process merge request '' @ Itoa (IID ref) @ '': '' @ err))"
    using explicit by blast
  have D: "\<forall>opts err. tr \<noteq> [] \<and> last tr = ListRequest opts
          \<and> ListProjectMergeRequests P p opts = Inl err \<longrightarrow>
          visited tr = concat (map (page_items P p) (butlast (requests tr)))"
    using listing by blast
  have E: "cursor_chain fuel P p ?o \<noteq> [] \<and> next_cursor P p (last (cursor_chain fuel P p ?o)) = None
        \<longrightarrow> (\<exists>m. FetchMergeRequestRefs fuel P c w p f = Some (Some m, fetch_progress fuel P c w p f))"
    using total by blast
  from S V have S': "sunk tr = concat (map (emitted P p) (visited tr))" by simp
  from pR R have pR': "prefix (requests tr) (cursor_chain fuel P p ?o)" by simp
  from lo R V have lo': "prefix (concat (map (page_items P p) (butlast (requests tr)))) (visited tr)" by simp
  from pV R V have pV': "prefix (visited tr) (concat (map (page_items P p) (requests tr)))" by simp
  show ?thesis by (intro conjI before A B C S' pR' lo' pV' D E)
qed

theorem fetch_fails_fast_witness:
  "trace (fetch_progress 5 two_pages_broken NewClient world0 ''g/p'' accept_all) =
     [ListRequest (page_opts 0),
      DetailRequest (item 101 1), SinkCall \<lparr>ID = 101, IID = 1, HeadSHA = ''abc''\<rparr>,
      DetailRequest (item 102 2),
      ListRequest (page_opts 2),
      DetailRequest (item 103 3)]
   \<and> error_at two_pages_broken accept_all ''g/p''
       (trace (fetch_progress 5 two_pages_broken NewClient world0 ''g/p'' accept_all)) 5 =
       Some ''failed to fetch merge request 3: connection reset''
   \<and> FetchMergeRequestRefs 5 two_pages_broken NewClient world0 ''g/p'' accept_all =
       Some (Some ''failed to fetch merge request 3: connection reset'',
             fetch_progress 5 two_pages_broken NewClient world0 ''g/p'' accept_all)
   \<and> sunk (trace (fetch_progress 5 two_pages_broken NewClient world0 ''g/p'' accept_all)) =
       [\<lparr>ID = 101, IID = 1, HeadSHA = ''abc''\<rparr>]
   \<and> result_of (FetchMergeRequestRefs 5 two_pages NewClient world0 ''g/p'' (reject_iid 3)) =
       Some (Some ''failed to process merge request 3: disk full'')
   \<and> last (trace_of (FetchMergeRequestRefs 5 two_pages NewClient world0 ''g/p'' (reject_iid 3))) =
       SinkCall \<lparr>ID = 103, IID = 3, HeadSHA = ''abc''\<rparr>
   \<and> visited (trace (fetch_progress 5 later_page_down NewClient world0 ''g/p'' accept_all)) =
       [item 101 1, item 102 2]
   \<and> page_items later_page_down ''g/p'' (page_opts 0) = [item 101 1, item 102 2]
   \<and> result_of (FetchMergeRequestRefs 5 later_page_down NewClient world0 ''g/p'' accept_all) =
       Some (Some ''failed to fetch merge requests: GET https://gitlab.com/api/v4/projects/g/p/merge_requests: 500'')"
proof -
  let ?tr = "trace (fetch_progress 5 two_pages_broken NewClient world0 ''g/p'' accept_all)"
  have err: "error_at two_pages_broken accept_all ''g/p'' ?tr 5 =
      Some ''failed to fetch merge request 3: connection reset''"
    unfolding broken_progress
    by (simp add: error_at_def eval_nat_numeral two_pages_broken_def two_pages_def item_def
        Itoa_def digits_of.simps digit_char_def)
  have len: "?tr \<noteq> [] \<and> length ?tr - 1 = 5" unfolding broken_progress by simp
  note th = fetch_fails_fast [OF refl, of 5 two_pages_broken NewClient world0 "''g/p''" accept_all]
  have "\<forall>m. ?tr \<noteq> [] \<and> error_at two_pages_broken accept_all ''g/p'' ?tr (length ?tr - 1) = Some m \<longrightarrow>
          FetchMergeRequestRefs 5 two_pages_broken NewClient world0 ''g/p'' accept_all =
          Some (Some m, fetch_progress 5 two_pages_broken NewClient world0 ''g/p'' accept_all)"
    by (rule conjunct1 [OF conjunct2 [OF th]])
  then have "?tr \<noteq> [] \<and> error_at two_pages_broken accept_all ''g/p'' ?tr (length ?tr - 1) =
          Some ''failed to fetch merge request 3: connection reset'' \<longrightarrow>
          FetchMergeRequestRefs 5 two_pages_broken NewClient world0 ''g/p'' accept_all =
          Some (Some ''failed to fetch merge request 3: connection reset'',
                fetch_progress 5 two_pages_broken NewClient world0 ''g/p'' accept_all)"
    by (rule spec)
  with err len
  have ret: "FetchMergeRequestRefs 5 two_pages_broken NewClient world0 ''g/p'' accept_all =
       Some (Some ''failed to fetch merge request 3: connection reset'',
             fetch_progress 5 two_pages_broken NewClient world0 ''g/p'' accept_all)"
    by simp
  have s: "sunk ?tr = [\<lparr>ID = 101, IID = 1, HeadSHA = ''abc''\<rparr>]"
    unfolding broken_progress by simp
  have v: "visited (trace (fetch_progress 5 later_page_down NewClient world0 ''g/p'' accept_all)) =
       [item 101 1, item 102 2]"
    unfolding later_down_trace by simp
  have pi: "page_items later_page_down ''g/p'' (page_opts 0) = [item 101 1, item 102 2]"
    by (simp add: page_items_def later_page_down_def two_pages_def page_opts_def)
  have r2: "result_of (FetchMergeRequestRefs 5 later_page_down NewClient world0 ''g/p'' accept_all) =
       Some (Some ''failed to fetch merge requests: GET https://gitlab.com/api/v4/projects/g/p/merge_requests: 500'')"
    by (simp add: run_simps later_page_down_def two_pages_def)
  show ?thesis
    by (intro conjI broken_progress err ret s rejected_result v pi r2)
       (simp add: rejected_trace)
qed

lemma full_run_shape:
  assumes run: "FetchMergeRequestRefs fuel P c w p f = Some (None, run')"
  shows "requests (trace run') = cursor_chain fuel P p \<lparr>Page = 0, PerPage = 100, State = Some ''all''\<rparr>
     \<and> requests (trace run') \<noteq> []
     \<and> Page (hd (requests (trace run'))) = 0
     \<and> (\<forall>opts \<in> set (requests (trace run')). PerPage opts = 100 \<and> State opts = Some ''all'')
     \<and> (\<forall>i. Suc i < length (requests (trace run')) \<longrightarrow>
           next_cursor P p (requests (trace run') ! i) = Some (Page (requests (trace run') ! Suc i))
           \<and> Page (requests (trace run') ! Suc i) \<noteq> 0)
     \<and> next_cursor P p (last (requests (trace run'))) = Some 0
     \<and> visited (trace run') = concat (map (page_items P p) (requests (trace run')))
     \<and> (distinct (concat (map (page_items P p) (requests (trace run')))) \<longrightarrow>
           (\<forall>mr \<in> set (concat (map (page_items P p) (requests (trace run')))).
              count_list (visited (trace run')) mr = 1))"
proof -
  let ?o = "\<lparr>Page = 0, PerPage = 100, State = Some ''all''\<rparr>"
  let ?R = "requests (trace run')"
  note fp = run [unfolded fetch_returned]
  have "fuel \<noteq> 0" using fp by (cases fuel) auto
  with fetch_pages_shape [OF fp]
  have R: "?R = cursor_chain fuel P p ?o" and ne: "?R \<noteq> []"
    and V: "visited (trace run') = concat (map (page_items P p) ?R)"
    and fin: "next_cursor P p (last ?R) = Some 0"
    by auto
  have hd: "Page (hd ?R) = 0" using cursor_chain_hd [of fuel P p ?o] ne R by simp
  have opts: "\<forall>opts \<in> set ?R. PerPage opts = 100 \<and> State opts = Some ''all''"
    using cursor_chain_options [of _ fuel P p ?o] R by simp
  have link: "\<forall>i. Suc i < length ?R \<longrightarrow>
      next_cursor P p (?R ! i) = Some (Page (?R ! Suc i)) \<and> Page (?R ! Suc i) \<noteq> 0"
    using cursor_chain_link [of _ fuel P p ?o] R by simp
  have once: "distinct (concat (map (page_items P p) ?R)) \<longrightarrow>
      (\<forall>mr \<in> set (concat (map (page_items P p) ?R)). count_list (visited (trace run')) mr = 1)"
    using V by (simp add: count_list_distinct)
  from R ne hd opts link fin V once show ?thesis by (intro conjI)
qed

text \<open>
  C5. A run that returns nil has issued exactly the listing requests of the cursor
  chain: the first for page 0 (unset), each with page size 100 and state filter
  \<^verbatim>\<open>all\<close>, each later one for the non-zero cursor the platform returned for the one
  before, and the last one answered with cursor zero. Its detail requests are the items
  of those pages, in order, one request per listed item; when the pages do not overlap,
  every item is visited exactly once. When the cursor chain reaches a zero cursor within
  the fuel, the run returns, and more fuel does not change what it returns.
\<close>

theorem full_run_visits_each_item_once:
  "(\<forall>run'. FetchMergeRequestRefs fuel P c w p f = Some (None, run') \<longrightarrow>
       requests (trace run') = cursor_chain fuel P p \<lparr>Page = 0, PerPage = 100, State = Some ''all''\<rparr>
     \<and> requests (trace run') \<noteq> []
     \<and> Page (hd (requests (trace run'))) = 0
     \<and> (\<forall>opts \<in> set (requests (trace run')). PerPage opts = 100 \<and> State opts = Some ''all'')
     \<and> (\<forall>i. Suc i < length (requests (trace run')) \<longrightarrow>
           next_cursor P p (requests (trace run') ! i) = Some (Page (requests (trace run') ! Suc i))
           \<and> Page (requests (trace run') ! Suc i) \<noteq> 0)
     \<and> next_cursor P p (last (requests (trace run'))) = Some 0
     \<and> visited (trace run') = concat (map (page_items P p) (requests (trace run')))
     \<and> (distinct (concat (map (page_items P p) (requests (trace run')))) \<longrightarrow>
           (\<forall>mr \<in> set (concat (map (page_items P p) (requests (trace run')))).
              count_list (visited (trace run')) mr = 1)))
   \<and> (cursor_chain fuel P p \<lparr>Page = 0, PerPage = 100, State = Some ''all''\<rparr> \<noteq> []
        \<and> next_cursor P p (last (cursor_chain fuel P p \<lparr>Page = 0, PerPage = 100, State = Some ''all''\<rparr>)) = Some 0
      \<longrightarrow> (\<exists>x. FetchMergeRequestRefs fuel P c w p f = Some x))
   \<and> (\<forall>x k. FetchMergeRequestRefs fuel P c w p f = Some x \<longrightarrow>
          FetchMergeRequestRefs (fuel + k) P c w p f = Some x)"
proof -
  let ?o = "\<lparr>Page = 0, PerPage = 100, State = Some ''all''\<rparr>"
  have total: "\<exists>x. FetchMergeRequestRefs fuel P c w p f = Some x"
    if "cursor_chain fuel P p ?o \<noteq> [] \<and> next_cursor P p (last (cursor_chain fuel P p ?o)) = Some 0"
  proof -
    from that fetch_pages_total [of fuel P p ?o f "\<lparr>client = c, world = w, trace = []\<rparr>"]
    have "fst (fetch_pages fuel P f p ?o \<lparr>client = c, world = w, trace = []\<rparr>) \<noteq> OutOfFuel" by blast
    then show ?thesis
      by (auto simp: FetchMergeRequestRefs_def split: prod.splits Outcome.splits)
  qed
  have more: "FetchMergeRequestRefs (fuel + k) P c w p f = Some x"
    if "FetchMergeRequestRefs fuel P c w p f = Some x" for x k
  proof -
    obtain res run' where x: "x = (res, run')" by (cases x)
    from that [unfolded x fetch_returned]
    have fp: "fetch_pages fuel P f p ?o \<lparr>client = c, world = w, trace = []\<rparr> = (Returned res, run')" .
    then have "fst (fetch_pages fuel P f p ?o \<lparr>client = c, world = w, trace = []\<rparr>) = Returned res" by simp
    from fetch_pages_more_fuel [OF this, of k] fp show ?thesis
      by (simp add: x fetch_returned)
  qed
  have A: "\<forall>run'. FetchMergeRequestRefs fuel P c w p f = Some (None, run') \<longrightarrow>
       requests (trace run') = cursor_chain fuel P p ?o
     \<and> requests (trace run') \<noteq> []
     \<and> Page (hd (requests (trace run'))) = 0
     \<and> (\<forall>opts \<in> set (requests (trace run')). PerPage opts = 100 \<and> State opts = Some ''all'')
     \<and> (\<forall>i. Suc i < length (requests (trace run')) \<longrightarrow>
           next_cursor P p (requests (trace run') ! i) = Some (Page (requests (trace run') ! Suc i))
           \<and> Page (requests (trace run') ! Suc i) \<noteq> 0)
     \<and> next_cursor P p (last (requests (trace run'))) = Some 0
     \<and> visited (trace run') = concat (map (page_items P p) (requests (trace run')))
     \<and> (distinct (concat (map (page_items P p) (requests (trace run')))) \<longrightarrow>
           (\<forall>mr \<in> set (concat (map (page_items P p) (requests (trace run')))).
              count_list (visited (trace run')) mr = 1))"
    by (intro allI impI) (rule full_run_shape)
  have B: "cursor_chain fuel P p ?o \<noteq> [] \<and> next_cursor P p (last (cursor_chain fuel P p ?o)) = Some 0
      \<longrightarrow> (\<exists>x. FetchMergeRequestRefs fuel P c w p f = Some x)"
    by (intro impI) (rule total)
  have C: "\<forall>x k. FetchMergeRequestRefs fuel P c w p f = Some x \<longrightarrow>
          FetchMergeRequestRefs (fuel + k) P c w p f = Some x"
    by (intro allI impI) (rule more)
  show ?thesis by (rule conjI [OF A conjI [OF B C]])
qed

theorem full_run_visits_each_item_once_witness:
  "result_of (FetchMergeRequestRefs 5 two_pages NewClient world0 ''g/p'' accept_all) = Some None
   \<and> requests (trace_of (FetchMergeRequestRefs 5 two_pages NewClient world0 ''g/p'' accept_all)) =
       [page_opts 0, page_opts 2]
   \<and> next_cursor two_pages ''g/p'' (page_opts 0) = Some 2
   \<and> next_cursor two_pages ''g/p'' (page_opts 2) = Some 0
   \<and> visited (trace_of (FetchMergeRequestRefs 5 two_pages NewClient world0 ''g/p'' accept_all)) =
       [item 101 1, item 102 2, item 103 3, item 104 4]
   \<and> count_list (visited (trace_of (FetchMergeRequestRefs 5 two_pages NewClient world0 ''g/p'' accept_all)))
       (item 103 3) = 1
   \<and> FetchMergeRequestRefs 7 two_pages NewClient world0 ''g/p'' accept_all =
       FetchMergeRequestRefs 5 two_pages NewClient world0 ''g/p'' accept_all"
proof -
  from returned [OF two_pages_result] obtain run' where
    run: "FetchMergeRequestRefs 5 two_pages NewClient world0 ''g/p'' accept_all = Some (None, run')"
    and tr: "trace run' = trace_of (FetchMergeRequestRefs 5 two_pages NewClient world0 ''g/p'' accept_all)"
    by blast
  note th = full_run_visits_each_item_once [of 5 two_pages NewClient world0 "''g/p''" accept_all]
  from th run have "FetchMergeRequestRefs (5 + 2) two_pages NewClient world0 ''g/p'' accept_all = Some (None, run')"
    by blast
  with run have more: "FetchMergeRequestRefs 7 two_pages NewClient world0 ''g/p'' accept_all =
       FetchMergeRequestRefs 5 two_pages NewClient world0 ''g/p'' accept_all" by simp
  have n: "next_cursor two_pages ''g/p'' (page_opts 0) = Some 2"
    "next_cursor two_pages ''g/p'' (page_opts 2) = Some 0"
    by (simp_all add: next_cursor_def two_pages_def page_opts_def ok_response_def)
  have c: "count_list [item 101 1, item 102 2, item 103 3, item 104 4] (item 103 3) = 1"
    by (simp add: item_def)
  show ?thesis
    unfolding two_pages_trace by (simp add: more two_pages_result n item_def)
qed

text \<open>On a platform whose cursor never reaches zero the run returns for no fuel.\<close>

lemma endless_never_returns: "FetchMergeRequestRefs fuel endless c w p f = None"
proof -
  have "fst (fetch_pages fuel endless f p opts run) = OutOfFuel" for opts run
    by (induction fuel arbitrary: opts run)
       (simp_all add: endless_def ok_response_def Let_def split: prod.splits)
  then have "fetch_pages fuel endless f p opts run \<noteq> (Returned res, run')" for opts run res run'
    by (metis fst_conv Outcome.distinct(1))
  then show ?thesis by (auto simp: FetchMergeRequestRefs_def split: prod.splits Outcome.splits)
qed


section \<open>Properties of the record codec\<close>

subsection \<open>Itoa and Atoi\<close>

lemma digit_of_digit_char: "d < 10 \<Longrightarrow> digit_of (digit_char d) = Some d"
proof -
  assume "d < 10"
  then have "d \<in> {0, 1, 2, 3, 4, 5, 6, 7, 8, 9}" by auto
  then show ?thesis
    by (auto simp: digit_of_def digit_char_def eval_nat_numeral)
qed

lemma parse_digits_append:
  "parse_digits (xs @ ys) n =
     (case parse_digits xs n of None \<Rightarrow> None | Some m \<Rightarrow> parse_digits ys m)"
  by (induction xs arbitrary: n) (auto split: option.splits)

lemma parse_digits_digits_of: "parse_digits (digits_of n) 0 = Some n"
proof (induction n rule: digits_of.induct)
  case (1 n)
  show ?case
  proof (cases "n < 10")
    case True
    then show ?thesis by (subst digits_of.simps) (simp add: digit_of_digit_char)
  next
    case False
    with 1 have "parse_digits (digits_of (n div 10)) 0 = Some (n div 10)" by simp
    with False show ?thesis
      by (subst digits_of.simps) (simp add: parse_digits_append digit_of_digit_char)
  qed
qed

lemma digits_of_digits: "c \<in> set (digits_of n) \<Longrightarrow> digit_of c \<noteq> None"
proof (induction n rule: digits_of.induct)
  case (1 n)
  show ?case
  proof (cases "n < 10")
    case True
    with "1.prems" have "c = digit_char n" by (subst (asm) digits_of.simps) simp
    with True show ?thesis by (simp add: digit_of_digit_char)
  next
    case False
    with "1.prems" have "c \<in> set (digits_of (n div 10)) \<or> c = digit_char (n mod 10)"
      by (subst (asm) digits_of.simps) auto
    with False "1.IH" show ?thesis by (auto simp: digit_of_digit_char)
  qed
qed

lemma digits_of_not_Nil: "digits_of n \<noteq> []"
  by (subst digits_of.simps) simp

lemma Atoi_Itoa:
  assumes "minInt64 \<le> i" and "i \<le> maxInt64"
  shows "Atoi (Itoa i) = Some i"
proof (cases "i < 0")
  case True
  with assms show ?thesis
    by (simp add: Atoi_def Itoa_def digits_of_not_Nil parse_digits_digits_of)
next
  case False
  obtain c cs where d: "digits_of (nat i) = c # cs"
    using digits_of_not_Nil [of "nat i"] by (cases "digits_of (nat i)") auto
  then have "digit_of c \<noteq> None" using digits_of_digits [of c "nat i"] by simp
  then have c: "c \<noteq> CHR ''-''" "c \<noteq> CHR ''+''" by (auto simp: digit_of_def)
  from parse_digits_digits_of [of "nat i"] d have "parse_digits (c # cs) 0 = Some (nat i)" by simp
  with False assms d c show ?thesis
    by (simp add: Atoi_def Itoa_def del: parse_digits.simps)
qed

lemma Itoa_chars:
  assumes "c \<in> set (Itoa i)"
  shows "c \<noteq> comma \<and> c \<noteq> quote \<and> c \<noteq> NL \<and> c \<noteq> CR"
proof -
  from assms have "c = CHR ''-'' \<or> digit_of c \<noteq> None"
    by (auto simp: Itoa_def split: if_splits dest: digits_of_digits)
  then show ?thesis by (auto simp: digit_of_def comma_def quote_def NL_def CR_def)
qed

lemma Itoa_not_Nil: "Itoa i \<noteq> []"
  by (simp add: Itoa_def digits_of_not_Nil)



lemma Itoa_char: "c \<in> set (Itoa i) \<Longrightarrow> c = CHR ''-'' \<or> digit_of c \<noteq> None"
  by (auto simp: Itoa_def split: if_splits dest: digits_of_digits)

subsection \<open>The lines of an encoded file\<close>

lemma readLines_line:
  "NL \<notin> set body \<Longrightarrow>
   readLines cur (body @ NL # rest) = normalizeCRLF (cur @ body @ [NL]) # readLines [] rest"
  by (induction body arbitrary: cur) auto

lemma normalizeCRLF_id: "body = [] \<or> last body \<noteq> CR \<Longrightarrow> normalizeCRLF (body @ [NL]) = body @ [NL]"
proof (cases body rule: rev_cases)
  case Nil
  then show ?thesis by (simp add: normalizeCRLF_def)
next
  case (snoc xs x)
  assume "body = [] \<or> last body \<noteq> CR"
  with snoc show ?thesis by (simp add: normalizeCRLF_def nth_append)
qed

lemma quote_body_id: "quote \<notin> set s \<Longrightarrow> quote_body s = s"
  by (induction s) auto

lemma unquoted_no_CR: "\<not> fieldNeedsQuotes s \<Longrightarrow> CR \<notin> set s"
  by (auto simp: fieldNeedsQuotes_def list_ex_iff split: if_splits)

lemma begins_with_space_hd:
  "begins_with_space s \<Longrightarrow>
   s \<noteq> [] \<and> hd s \<in> {CHR 0x09, CHR 0x0A, CHR 0x0B, CHR 0x0C, CHR 0x0D, CHR 0x20,
                      CHR 0xC2, CHR 0xE1, CHR 0xE2, CHR 0xE3}"
  by (cases s) (auto simp: begins_with_space_def space_encodings_def)

lemma Itoa_unquoted: "\<not> fieldNeedsQuotes (Itoa i)"
proof -
  have a: "\<not> list_ex (\<lambda>c. c = NL \<or> c = CR \<or> c = quote \<or> c = comma) (Itoa i)"
    using Itoa_chars [of _ i] by (auto simp: list_ex_iff)
  have b: "Itoa i \<noteq> [CHR 0x5C, CHR 0x2E]"
  proof
    assume "Itoa i = [CHR 0x5C, CHR 0x2E]"
    then have "CHR 0x5C \<in> set (Itoa i)" by simp
    from Itoa_char [OF this] show False by (simp add: digit_of_def)
  qed
  have c: "\<not> begins_with_space (Itoa i)"
  proof
    assume "begins_with_space (Itoa i)"
    from begins_with_space_hd [OF this]
    have ne: "Itoa i \<noteq> []"
      and h: "hd (Itoa i) \<in> {CHR 0x09, CHR 0x0A, CHR 0x0B, CHR 0x0C, CHR 0x0D, CHR 0x20,
                      CHR 0xC2, CHR 0xE1, CHR 0xE2, CHR 0xE3}" by simp_all
    from ne have "hd (Itoa i) \<in> set (Itoa i)" by simp
    from Itoa_char [OF this] h show False by (auto simp: digit_of_def)
  qed
  from a b c show ?thesis by (simp add: fieldNeedsQuotes_def)
qed

lemma write_field_cases:
  assumes "plain s"
  shows "(write_field s = s \<and> CR \<notin> set s) \<or> write_field s = quote # s @ [quote]"
  using assms by (auto simp: write_field_def plain_def quote_body_id dest: unquoted_no_CR)

lemma csv_Write_record: "csv_Write [Itoa (IID ref), HeadSHA ref] = record_line ref"
  using Itoa_unquoted [of "IID ref"]
  by (simp add: csv_Write_def record_line_def write_field_def)


lemma record_line_body:
  assumes "plain (HeadSHA ref)"
  shows "\<exists>body. record_line ref = body @ [NL] \<and> NL \<notin> set body \<and> body \<noteq> [] \<and> last body \<noteq> CR"
proof -
  let ?body = "Itoa (IID ref) @ comma # write_field (HeadSHA ref)"
  have nl: "NL \<notin> set (Itoa (IID ref))" using Itoa_chars [of NL "IID ref"] by auto
  from assms have nl2: "NL \<notin> set (write_field (HeadSHA ref))"
    using write_field_cases [OF assms] by (auto simp: plain_def NL_def quote_def)
  have last: "last ?body \<noteq> CR"
  proof (cases "write_field (HeadSHA ref) = []")
    case True
    then show ?thesis by (simp add: comma_def CR_def)
  next
    case False
    from write_field_cases [OF assms] show ?thesis
    proof
      assume a: "write_field (HeadSHA ref) = HeadSHA ref \<and> CR \<notin> set (HeadSHA ref)"
      with False have ne: "HeadSHA ref \<noteq> []" by simp
      have "last (HeadSHA ref) \<noteq> CR"
      proof
        assume "last (HeadSHA ref) = CR"
        with last_in_set [OF ne] have "CR \<in> set (HeadSHA ref)" by simp
        with a show False by simp
      qed
      with a ne show ?thesis by simp
    next
      assume "write_field (HeadSHA ref) = quote # HeadSHA ref @ [quote]"
      then show ?thesis by (simp add: quote_def CR_def)
    qed
  qed
  show ?thesis
    by (intro exI [of _ ?body]) (use nl nl2 last in \<open>simp add: record_line_def NL_def comma_def\<close>)
qed

lemma readLines_records:
  assumes "\<forall>ref \<in> set refs. plain (HeadSHA ref)"
  shows "readLines [] (write_records refs) = map record_line refs"
  using assms
proof (induction refs)
  case Nil
  then show ?case by simp
next
  case (Cons ref refs)
  from Cons.prems have "plain (HeadSHA ref)" by simp
  from record_line_body [OF this] obtain body where
    b: "record_line ref = body @ [NL]" "NL \<notin> set body" "body \<noteq> []" "last body \<noteq> CR" by blast
  have "readLines [] (body @ NL # write_records refs)
      = normalizeCRLF ([] @ body @ [NL]) # readLines [] (write_records refs)"
    using b(2) by (rule readLines_line)
  with b Cons show ?case
    by (simp add: csv_Write_record normalizeCRLF_id)
qed


subsection \<open>Reading the encoded records back\<close>

lemma cut_found: "c \<notin> set a \<Longrightarrow> cut c (a @ c # b) = Some (a, b)"
  by (induction a) auto

lemma cut_none: "c \<notin> set xs \<Longrightarrow> cut c xs = None"
  by (induction xs) auto

lemma parse_last_field:
  assumes "plain s"
  shows "parseField (write_field s @ [NL]) rest flds = Inr (flds @ [s], rest)"
  using write_field_cases [OF assms]
proof
  assume "write_field s = s \<and> CR \<notin> set s"
  then have w: "write_field s = s" by simp
  from assms have q: "quote \<notin> set s" and k: "comma \<notin> set s" by (simp_all add: plain_def)
  have hd: "hd (s @ [NL]) \<noteq> quote"
    using q by (cases s) (auto simp: NL_def quote_def)
  have "comma \<notin> set (s @ [NL])" using k by (simp add: NL_def comma_def)
  then have cut: "cut comma (s @ [NL]) = None" by (rule cut_none)
  have len: "lengthNL (s @ [NL]) = 1" by (simp add: lengthNL_def)
  show ?thesis
    unfolding w by (subst parseField.simps) (simp add: hd cut len q)
next
  assume w: "write_field s = quote # s @ [quote]"
  from assms have q: "quote \<notin> set s" by (simp add: plain_def)
  have cut: "cut quote (s @ quote # [NL]) = Some (s, [NL])" using q by (rule cut_found)
  have nl: "NL \<noteq> quote" "NL \<noteq> comma" by (simp_all add: NL_def quote_def comma_def)
  have inner: "parseQuoted (s @ quote # [NL]) rest [] flds = Inr (flds @ [s], rest)"
    by (subst parseQuoted.simps) (simp add: cut nl lengthNL_def)
  show ?thesis
    unfolding w by (subst parseField.simps) (simp add: inner)
qed

lemma parse_record_line:
  assumes "plain (HeadSHA ref)"
  shows "parseField (record_line ref) rest [] = Inr ([Itoa (IID ref), HeadSHA ref], rest)"
proof -
  let ?n = "Itoa (IID ref)"
  let ?tail = "write_field (HeadSHA ref) @ [NL]"
  have line: "record_line ref = ?n @ comma # ?tail" by (simp add: record_line_def)
  have chars: "comma \<notin> set ?n" "quote \<notin> set ?n" using Itoa_chars [of _ "IID ref"] by auto
  have "hd ?n \<noteq> quote" using hd_in_set [OF Itoa_not_Nil, of "IID ref"] chars(2) by metis
  then have hd: "hd (?n @ comma # ?tail) \<noteq> quote"
    by (simp add: hd_append Itoa_not_Nil)
  have cut: "cut comma (?n @ comma # ?tail) = Some (?n, ?tail)" using chars(1) by (rule cut_found)
  have "parseField (?n @ comma # ?tail) rest [] = parseField ?tail rest ([] @ [?n])"
    by (subst parseField.simps) (simp add: hd cut chars del: append_Nil)
  also have "\<dots> = Inr (([] @ [?n]) @ [HeadSHA ref], rest)"
    using assms by (rule parse_last_field)
  finally show ?thesis by (simp add: line)
qed

lemma record_line_not_empty: "length (record_line ref) \<noteq> lengthNL (record_line ref)"
proof -
  have "2 \<le> length (record_line ref)" by (simp add: record_line_def)
  moreover have "lengthNL (record_line ref) \<le> 1" by (simp add: lengthNL_def)
  ultimately show ?thesis by simp
qed

lemma readRecords_lines:
  assumes "\<forall>ref \<in> set refs. plain (HeadSHA ref)" and "n = 0 \<or> n = 2"
  shows "readRecords (map record_line refs) n = Inr (map (\<lambda>ref. [Itoa (IID ref), HeadSHA ref]) refs)"
  using assms
proof (induction refs arbitrary: n)
  case Nil
  then show ?case by simp
next
  case (Cons ref refs)
  from Cons.prems have p: "plain (HeadSHA ref)" by simp
  have ih: "readRecords (map record_line refs) 2 = Inr (map (\<lambda>ref. [Itoa (IID ref), HeadSHA ref]) refs)"
    using Cons.prems by (intro Cons.IH) simp_all
  note ih2 = ih [unfolded numeral_2_eq_2]
  from Cons.prems(2) show ?case
    by (auto simp: record_line_not_empty parse_record_line [OF p] ih ih2)
qed

lemma refs_of_records_encoded:
  assumes "\<forall>ref \<in> set refs. minInt64 \<le> IID ref \<and> IID ref \<le> maxInt64"
  shows "refs_of_records i (map (\<lambda>ref. [Itoa (IID ref), HeadSHA ref]) refs) = Inr (map decoded refs)"
  using assms by (induction refs arbitrary: i) (simp_all add: Atoi_Itoa decoded_def)

lemma refs_of_records_ID:
  "refs_of_records i records = Inr refs \<Longrightarrow> \<forall>ref \<in> set refs. ID ref = 0"
  by (induction records arbitrary: i refs) (auto split: if_splits option.splits sum.splits)

lemma decode_encoded:
  assumes "\<forall>ref \<in> set refs. minInt64 \<le> IID ref \<and> IID ref \<le> maxInt64 \<and> plain (HeadSHA ref)"
  shows "ReadRefsFromFile filename (fs\<lparr>files := (files fs)(filename := Some (write_records refs))\<rparr>)
           = Inr (map decoded refs)"
proof -
  from assms have pl: "\<forall>ref \<in> set refs. plain (HeadSHA ref)" by simp
  from assms have rg: "\<forall>ref \<in> set refs. minInt64 \<le> IID ref \<and> IID ref \<le> maxInt64" by simp
  have "csv_ReadAll (write_records refs) = Inr (map (\<lambda>ref. [Itoa (IID ref), HeadSHA ref]) refs)"
    unfolding csv_ReadAll_def readLines_records [OF pl]
    using pl by (intro readRecords_lines) simp_all
  then show ?thesis
    using refs_of_records_encoded [OF rg, of 0] by (simp add: ReadRefsFromFile_def)
qed

lemma bytes_of_simps [simp]:
  "bytes_of [] = []"
  "bytes_of (x # xs) = call_bytes x @ bytes_of xs"
  "bytes_of (xs @ ys) = bytes_of xs @ bytes_of ys"
  by (simp_all add: bytes_of_def)

lemma quote_body_append: "quote_body (a @ b) = quote_body a @ quote_body b"
  by (induction a) simp_all

lemma quoted_calls_bytes: "bytes_of (quoted_calls field) = quote_body field"
proof (induction field rule: quoted_calls.induct)
  case (1 field)
  let ?P = "\<lambda>c. c \<noteq> quote \<and> c \<noteq> CR \<and> c \<noteq> NL"
  show ?case
  proof (cases "field = []")
    case True
    then show ?thesis by (simp add: quoted_calls.simps [of "[]"])
  next
    case False
    have "quote \<notin> set (takeWhile ?P field)" by (auto dest: set_takeWhileD)
    then have chunk: "quote_body (takeWhile ?P field) = takeWhile ?P field" by (rule quote_body_id)
    have split: "quote_body field = takeWhile ?P field @ quote_body (dropWhile ?P field)"
      using quote_body_append [of "takeWhile ?P field" "dropWhile ?P field"] chunk by simp
    show ?thesis
    proof (cases "dropWhile ?P field")
      case Nil
      have q: "quote_body field = takeWhile ?P field" using split unfolding Nil by simp
      show ?thesis unfolding quoted_calls.simps [of field] Nil using False q by simp
    next
      case (Cons c rest)
      from "1.IH" [OF False Cons] have ih: "bytes_of (quoted_calls rest) = quote_body rest" .
      have q: "quote_body field = takeWhile ?P field @ quote_body (c # rest)"
        using split unfolding Cons by simp
      show ?thesis unfolding quoted_calls.simps [of field] Cons using False q ih by simp
    qed
  qed
qed

lemma field_calls_bytes: "bytes_of (field_calls field) = write_field field"
  by (simp add: field_calls_def write_field_def quoted_calls_bytes)

lemma fields_calls_bytes:
  "bytes_of (fields_calls n (field # flds)) =
     (if 0 < n then [comma] else []) @ write_fields (field # flds) @ [NL]"
proof (induction flds arbitrary: n field)
  case Nil
  show ?case by (simp add: field_calls_bytes)
next
  case (Cons g flds)
  from Cons [of "n + 1" g] show ?case by (simp add: field_calls_bytes)
qed

lemma Write_calls_bytes:
  "bytes_of (fields_calls 0 [Itoa (IID ref), HeadSHA ref]) = csv_Write [Itoa (IID ref), HeadSHA ref]"
  by (simp add: field_calls_bytes csv_Write_def)

lemma os_Write_takes:
  assumes "files fs name = Some old" and "takes fs name limit" and "length old + length p \<le> limit"
  shows "os_Write name p fs = (length p, fs\<lparr>files := (files fs)(name \<mapsto> old @ p)\<rparr>)"
proof -
  from assms(2,3) have "length p \<le> accepts fs name (length old) (length p)"
    by (simp add: takes_def)
  then have "min (length p) (accepts fs name (length old) (length p)) = length p" by simp
  with assms(1) show ?thesis by (simp add: os_Write_def)
qed

lemma carriesI:
  "\<not> failed b \<Longrightarrow> target b = name \<Longrightarrow> fs = fs0\<lparr>files := (files fs0)(name \<mapsto> old)\<rparr> \<Longrightarrow>
   old @ buffered b = d \<Longrightarrow> carries name fs0 d (b, fs)"
  by (auto simp: carries_def)

lemma carries_Flush:
  assumes "carries name fs0 d (b, fs)" and "takes fs0 name limit" and "length d \<le> limit"
  shows "bufio_Flush b fs = (b\<lparr>buffered := []\<rparr>, fs0\<lparr>files := (files fs0)(name \<mapsto> d)\<rparr>)"
proof -
  from assms(1) obtain old where nf: "\<not> failed b" and tg: "target b = name"
    and fs: "fs = fs0\<lparr>files := (files fs0)(name \<mapsto> old)\<rparr>" and d: "old @ buffered b = d"
    by (auto simp: carries_def)
  show ?thesis
  proof (cases "buffered b = []")
    case True
    with nf d fs show ?thesis by (simp add: bufio_Flush_def)
  next
    case False
    have f: "files fs name = Some old" using fs by simp
    have t: "takes fs name limit" using assms(2) fs by (simp add: takes_def)
    have l: "length old + length (buffered b) \<le> limit" using assms(3) d by auto
    from os_Write_takes [OF f t l] nf tg False d fs show ?thesis
      by (simp add: bufio_Flush_def)
  qed
qed

lemma carries_WriteByte:
  assumes "carries name fs0 d (b, fs)" and "takes fs0 name limit" and "length d + 1 \<le> limit"
  shows "carries name fs0 (d @ [c]) (bufio_WriteByte c b fs)"
proof -
  from assms(1) obtain old where nf: "\<not> failed b" and tg: "target b = name"
    and fs: "fs = fs0\<lparr>files := (files fs0)(name \<mapsto> old)\<rparr>" and d: "old @ buffered b = d"
    by (auto simp: carries_def)
  show ?thesis
  proof (cases "Available b \<le> 0")
    case False
    with nf have eq: "bufio_WriteByte c b fs = (b\<lparr>buffered := buffered b @ [c]\<rparr>, fs)"
      by (simp add: bufio_WriteByte_def)
    from nf tg fs d show ?thesis
      unfolding eq by (intro carriesI [of _ _ _ _ old]) simp_all
  next
    case True
    from assms(3) have "length d \<le> limit" by simp
    from carries_Flush [OF assms(1,2) this] True nf
    have eq: "bufio_WriteByte c b fs =
        (b\<lparr>buffered := [c]\<rparr>, fs0\<lparr>files := (files fs0)(name \<mapsto> d)\<rparr>)"
      by (simp add: bufio_WriteByte_def)
    from nf tg show ?thesis
      unfolding eq by (intro carriesI [of _ _ _ _ d]) simp_all
  qed
qed

lemma carries_WriteString:
  "carries name fs0 d (b, fs) \<Longrightarrow> takes fs0 name limit \<Longrightarrow> length d + length s \<le> limit \<Longrightarrow>
   carries name fs0 (d @ s) (bufio_WriteString s b fs)"
proof (induction s b fs arbitrary: d rule: bufio_WriteString.induct)
  case (1 s b fs)
  from "1.prems"(1) obtain old where nf: "\<not> failed b" and tg: "target b = name"
    and fs: "fs = fs0\<lparr>files := (files fs0)(name \<mapsto> old)\<rparr>" and d: "old @ buffered b = d"
    by (auto simp: carries_def)
  have f: "files fs name = Some old" using fs by simp
  have t: "takes fs name limit" using "1.prems"(2) fs by (simp add: takes_def)
  show ?case
  proof (cases "Available b < length s")
    case False
    with nf have eq: "bufio_WriteString s b fs = (b\<lparr>buffered := buffered b @ s\<rparr>, fs)"
      by (simp add: bufio_WriteString.simps [of s b fs])
    from nf tg fs d show ?thesis
      unfolding eq by (intro carriesI [of _ _ _ _ old]) simp_all
  next
    case True
    note long = True
    show ?thesis
    proof (cases "buffered b = []")
      case True
      have l: "length old + length s \<le> limit" using "1.prems"(3) d by auto
      note w = os_Write_takes [OF f t l]
      let ?fs' = "fs\<lparr>files := (files fs)(name \<mapsto> old @ s)\<rparr>"
      let ?b' = "b\<lparr>failed := length s < length s\<rparr>"
      have step: "bufio_WriteString s b fs = bufio_WriteString (drop (length s) s) ?b' ?fs'"
        by (subst bufio_WriteString.simps) (simp add: long nf True w tg)
      have w': "(length s, ?fs') = os_Write (target b) s fs" using w tg by simp
      have c: "carries name fs0 (d @ s) (?b', ?fs')"
        using nf tg fs d True by (intro carriesI [of _ _ _ _ "old @ s"]) simp_all
      have l': "length (d @ s) + length (drop (length s) s) \<le> limit" using "1.prems"(3) by simp
      note ih = "1.IH"(1) [OF conjI [OF long nf] True w' c "1.prems"(2) l']
      with step show ?thesis by simp
    next
      case False
      let ?n = "Available b"
      let ?b1 = "b\<lparr>buffered := buffered b @ take ?n s\<rparr>"
      have c1: "carries name fs0 (d @ take ?n s) (?b1, fs)"
        using nf tg fs d by (intro carriesI [of _ _ _ _ old]) simp_all
      have l1: "length (d @ take ?n s) \<le> limit" using "1.prems"(3) by simp
      note fl = carries_Flush [OF c1 "1.prems"(2) l1]
      let ?b2 = "?b1\<lparr>buffered := []\<rparr>"
      let ?fs2 = "fs0\<lparr>files := (files fs0)(name \<mapsto> d @ take ?n s)\<rparr>"
      have step: "bufio_WriteString s b fs = bufio_WriteString (drop ?n s) ?b2 ?fs2"
        using long nf False fl by (simp add: bufio_WriteString.simps [of s b fs])
      have c2: "carries name fs0 (d @ take ?n s) (?b2, ?fs2)"
        using nf tg by (intro carriesI [of _ _ _ _ "d @ take ?n s"]) simp_all
      have l2: "length (d @ take ?n s) + length (drop ?n s) \<le> limit" using "1.prems"(3) by simp
      have "carries name fs0 ((d @ take ?n s) @ drop ?n s) (bufio_WriteString (drop ?n s) ?b2 ?fs2)"
        using long nf False fl
        by (intro "1.IH"(2) [OF _ _ _ c2 "1.prems"(2) l2]) simp_all
      with step show ?thesis by simp
    qed
  qed
qed

lemma carries_call:
  "carries name fs0 d (b, fs) \<Longrightarrow> takes fs0 name limit \<Longrightarrow>
   length d + length (call_bytes x) \<le> limit \<Longrightarrow>
   carries name fs0 (d @ call_bytes x) (run_call x b fs)"
  by (cases x) (simp_all add: carries_WriteByte carries_WriteString)

lemma carries_calls:
  "carries name fs0 d (b, fs) \<Longrightarrow> takes fs0 name limit \<Longrightarrow>
   length d + length (bytes_of cs) \<le> limit \<Longrightarrow>
   carries name fs0 (d @ bytes_of cs) (run_calls cs b fs)"
proof (induction cs arbitrary: d b fs)
  case Nil
  then show ?case by simp
next
  case (Cons x cs)
  obtain b' fs' where st: "run_call x b fs = (b', fs')" by (cases "run_call x b fs")
  from Cons.prems(3) have l: "length d + length (call_bytes x) \<le> limit" by simp
  from carries_call [OF Cons.prems(1,2) l] st
  have c: "carries name fs0 (d @ call_bytes x) (b', fs')" by simp
  then have nf: "\<not> failed b'" by (simp add: carries_def)
  from Cons.prems(3) have "length (d @ call_bytes x) + length (bytes_of cs) \<le> limit" by simp
  from Cons.IH [OF c Cons.prems(2) this] st nf show ?case by simp
qed

lemma carries_write_loop:
  "carries name fs0 d (b, fs) \<Longrightarrow> takes fs0 name limit \<Longrightarrow>
   length d + length (write_records refs) \<le> limit \<Longrightarrow>
   \<exists>b' fs'. write_loop refs b fs = (None, b', fs') \<and> carries name fs0 (d @ write_records refs) (b', fs')"
proof (induction refs arbitrary: d b fs)
  case Nil
  then show ?case by simp
next
  case (Cons ref refs)
  let ?rec = "[Itoa (IID ref), HeadSHA ref]"
  obtain b' fs' where st: "csv_Writer_Write ?rec b fs = (b', fs')"
    by (cases "csv_Writer_Write ?rec b fs")
  have l: "length d + length (bytes_of (fields_calls 0 ?rec)) \<le> limit"
    unfolding Write_calls_bytes using Cons.prems(3) by simp
  have c: "carries name fs0 (d @ csv_Write ?rec) (b', fs')"
    using carries_calls [OF Cons.prems(1,2) l] st
    unfolding csv_Writer_Write_def Write_calls_bytes by simp
  then have nf: "\<not> failed b'" by (simp add: carries_def)
  from Cons.prems(3) have "length (d @ csv_Write ?rec) + length (write_records refs) \<le> limit" by simp
  from Cons.IH [OF c Cons.prems(2) this] st nf show ?case by simp
qed

lemma WriteRefsToFile_takes:
  assumes "creatable fs filename" and "takes fs filename (length (write_records refs))"
  shows "WriteRefsToFile refs filename fs =
           (None, fs\<lparr>files := (files fs)(filename := Some (write_records refs))\<rparr>)"
proof -
  let ?b = "\<lparr>target = filename, buffered = [], failed = False\<rparr>"
  let ?fs1 = "fs\<lparr>files := (files fs)(filename \<mapsto> [])\<rparr>"
  have cr: "os_Create filename fs = Some ?fs1" using assms(1) by (simp add: os_Create_def)
  have c: "carries filename fs [] (?b, ?fs1)" by (intro carriesI [of _ _ _ _ "[]"]) simp_all
  from carries_write_loop [OF c assms(2), of refs] obtain b' fs' where
    loop: "write_loop refs ?b ?fs1 = (None, b', fs')"
    and c': "carries filename fs (write_records refs) (b', fs')" by auto
  from carries_Flush [OF c' assms(2)] cr loop show ?thesis
    by (simp add: WriteRefsToFile_def)
qed

lemma write_loop_ignores_ID:
  "write_loop (map (\<lambda>ref. ref\<lparr>ID := k\<rparr>) refs) b fs = write_loop refs b fs"
  by (induction refs arbitrary: b fs) (simp_all split: prod.splits)

lemma write_records_ignores_ID: "write_records (map (\<lambda>ref. ref\<lparr>ID := k\<rparr>) refs) = write_records refs"
  by (induction refs) simp_all


lemma test_refs_ok:
  "\<forall>ref \<in> set test_refs. minInt64 \<le> IID ref \<and> IID ref \<le> maxInt64
       \<and> comma \<notin> set (HeadSHA ref) \<and> quote \<notin> set (HeadSHA ref) \<and> NL \<notin> set (HeadSHA ref)"
  by (simp add: test_refs_def minInt64_def maxInt64_def comma_def quote_def NL_def)

lemma WriteString_fits:
  "length s \<le> Available b \<Longrightarrow> \<not> failed b \<Longrightarrow>
   bufio_WriteString s b fs = (b\<lparr>buffered := buffered b @ s\<rparr>, fs)"
  by (simp add: bufio_WriteString.simps [of s b fs])

lemma WriteString_failed: "failed b \<Longrightarrow> bufio_WriteString s b fs = (b, fs)"
  by (simp add: bufio_WriteString.simps [of s b fs])

lemma WriteString_fill:
  "Available b < length s \<Longrightarrow> \<not> failed b \<Longrightarrow> buffered b \<noteq> [] \<Longrightarrow>
   bufio_WriteString s b fs =
     (case bufio_Flush (b\<lparr>buffered := buffered b @ take (Available b) s\<rparr>) fs of
        (b', fs') \<Rightarrow> bufio_WriteString (drop (Available b) s) b' fs')"
  by (simp add: bufio_WriteString.simps [of s b fs])

lemma field_calls_unquoted: "\<not> fieldNeedsQuotes s \<Longrightarrow> field_calls s = [WriteString s]"
  by (simp add: field_calls_def)

lemma test_refs_fields:
  "Itoa 1 = ''1''" "Itoa 16 = ''16''" "Itoa 17 = ''17''"
  "field_calls ''1'' = [WriteString ''1'']" "field_calls ''16'' = [WriteString ''16'']"
  "field_calls ''17'' = [WriteString ''17'']"
  "field_calls ''abc123'' = [WriteString ''abc123'']"
  "field_calls ''def456'' = [WriteString ''def456'']"
  "field_calls ''ghi789'' = [WriteString ''ghi789'']"
  by (simp_all add: field_calls_def fieldNeedsQuotes_def begins_with_space_def
      space_encodings_def Itoa_def digits_of.simps digit_char_def NL_def CR_def quote_def comma_def)

lemma long_field_unquoted: "\<not> fieldNeedsQuotes (replicate 5000 (CHR ''a''))"
proof -
  let ?s = "replicate 5000 (CHR ''a'')"
  have a: "?s \<noteq> []" by simp
  have b: "?s \<noteq> [CHR 0x5C, CHR 0x2E]"
  proof
    assume "?s = [CHR 0x5C, CHR 0x2E]"
    then have "length ?s = length [CHR 0x5C, CHR 0x2E]" by (rule arg_cong)
    then show False by simp
  qed
  have c: "\<not> list_ex (\<lambda>c. c = NL \<or> c = CR \<or> c = quote \<or> c = comma) ?s"
    by (simp add: list_ex_iff NL_def CR_def quote_def comma_def)
  have d: "\<not> begins_with_space ?s"
  proof
    assume "begins_with_space ?s"
    from begins_with_space_hd [OF this] show False by (simp add: hd_replicate)
  qed
  show ?thesis by (simp only: fieldNeedsQuotes_def a b c d if_False simp_thms)
qed

text \<open>
  A file that takes no byte: for the three references of the test the whole encoding
  is still in the buffer when the loop ends, the deferred flush fails and nobody sees
  its error, so the call returns nil, the file is empty, and no record is read back.
\<close>

lemma flush_error_unseen:
  "fst (WriteRefsToFile test_refs ''out.csv'' full_fs) = None
   \<and> files (snd (WriteRefsToFile test_refs ''out.csv'' full_fs)) ''out.csv'' = Some []
   \<and> read_back test_refs ''out.csv'' full_fs = Inr []"
proof -
  have w: "WriteRefsToFile test_refs ''out.csv'' full_fs =
      (None, full_fs\<lparr>files := (files full_fs)(''out.csv'' \<mapsto> [])\<rparr>)"
    by (simp add: WriteRefsToFile_def os_Create_def os_Write_def os_Close_def csv_Writer_Write_def
        test_refs_fields bufio_Flush_def bufio_WriteByte_def WriteString_fits Available_def
        bufSize_def full_fs_def test_refs_def)
  have r: "ReadRefsFromFile ''out.csv'' (full_fs\<lparr>files := (files full_fs)(''out.csv'' \<mapsto> [])\<rparr>) = Inr []"
    by (simp add: ReadRefsFromFile_def csv_ReadAll_def)
  from w r show ?thesis by (simp add: read_back_def)
qed

text \<open>
  The same file and a hash longer than the buffer: the buffer is flushed inside
  \<^verbatim>\<open>writer.Write\<close>, which returns the error, and the call returns it.
\<close>

lemma write_error_returned:
  "fst (WriteRefsToFile long_refs ''out.csv'' full_fs) = Some WriteFailed
   \<and> read_back long_refs ''out.csv'' full_fs = Inl WriteFailed"
proof -
  let ?s = "replicate 5000 (CHR ''a'')"
  let ?b = "\<lparr>target = ''out.csv'', buffered = ''1,'', failed = False\<rparr>"
  let ?fs = "full_fs\<lparr>files := (files full_fs)(''out.csv'' \<mapsto> [])\<rparr>"
  have long: "failed (fst (bufio_WriteString ?s ?b ?fs))"
    by (simp add: WriteString_fill WriteString_failed bufio_Flush_def os_Write_def
        Available_def bufSize_def full_fs_def)
  have cs: "fields_calls 0 [Itoa 1, ?s] =
      [WriteString ''1'', WriteByte comma, WriteString ?s, WriteByte NL]"
    by (simp add: test_refs_fields field_calls_unquoted [OF long_field_unquoted])
  have "failed (fst (run_calls (fields_calls 0 [Itoa 1, ?s])
      \<lparr>target = ''out.csv'', buffered = [], failed = False\<rparr> ?fs))"
    unfolding cs using long
    by (simp add: bufio_WriteByte_def WriteString_fits Available_def bufSize_def
        comma_def case_prod_beta)
  then have w: "fst (WriteRefsToFile long_refs ''out.csv'' full_fs) = Some WriteFailed"
    by (simp add: WriteRefsToFile_def os_Create_def csv_Writer_Write_def long_refs_def full_fs_def
        case_prod_beta del: fields_calls.simps)
  then show ?thesis
    by (cases "WriteRefsToFile long_refs ''out.csv'' full_fs") (simp add: read_back_def)
qed



text \<open>
  C10. Every record \<^verbatim>\<open>ReadRefsFromFile\<close> returns has \<open>ID\<close> zero, whatever the file holds;
  the encoder never reads \<open>ID\<close>, so the same file is written whatever the ids are; hence a
  reference with a non-zero id is not among the records read back from its own
  encoding.
\<close>

theorem decoded_ID_is_zero:
  "(\<forall>refs. ReadRefsFromFile filename fs = Inr refs \<longrightarrow> (\<forall>ref \<in> set refs. ID ref = 0))
   \<and> WriteRefsToFile (map (\<lambda>ref. ref\<lparr>ID := k\<rparr>) input) filename fs = WriteRefsToFile input filename fs
   \<and> (\<forall>out. read_back input filename fs = Inr out \<longrightarrow>
         (\<forall>ref \<in> set out. ID ref = 0) \<and> (\<forall>ref \<in> set input. ID ref \<noteq> 0 \<longrightarrow> ref \<notin> set out))"
proof -
  have a: "\<forall>ref \<in> set refs. ID ref = 0" if "ReadRefsFromFile filename fs' = Inr refs" for refs fs'
    using that refs_of_records_ID
    by (auto simp: ReadRefsFromFile_def split: option.splits sum.splits)
  have b: "WriteRefsToFile (map (\<lambda>ref. ref\<lparr>ID := k\<rparr>) input) filename fs = WriteRefsToFile input filename fs"
    by (cases "os_Create filename fs") (simp_all add: WriteRefsToFile_def write_loop_ignores_ID)
  have c: "(\<forall>ref \<in> set out. ID ref = 0) \<and> (\<forall>ref \<in> set input. ID ref \<noteq> 0 \<longrightarrow> ref \<notin> set out)"
    if "read_back input filename fs = Inr out" for out
  proof -
    from that obtain fs' where "ReadRefsFromFile filename fs' = Inr out"
      by (auto simp: read_back_def split: prod.splits option.splits)
    from a [OF this] show ?thesis by auto
  qed
  from a b c show ?thesis by blast
qed

theorem decoded_ID_is_zero_witness:
  "map ID test_refs = [1, 2, 3]
   \<and> read_back test_refs ''test.csv'' empty_fs = Inr (map decoded test_refs)
   \<and> map ID (map decoded test_refs) = [0, 0, 0]
   \<and> WriteRefsToFile (map (\<lambda>ref. ref\<lparr>ID := 0\<rparr>) test_refs) ''test.csv'' empty_fs
       = WriteRefsToFile test_refs ''test.csv'' empty_fs"
proof -
  have ok: "\<forall>ref \<in> set test_refs. minInt64 \<le> IID ref \<and> IID ref \<le> maxInt64 \<and> plain (HeadSHA ref)"
    using test_refs_ok by (simp add: plain_def)
  have "creatable empty_fs ''test.csv''" by (simp add: empty_fs_def)
  moreover have "takes empty_fs ''test.csv'' (length (write_records test_refs))"
    by (simp add: takes_def empty_fs_def)
  ultimately have "WriteRefsToFile test_refs ''test.csv'' empty_fs =
      (None, empty_fs\<lparr>files := (files empty_fs)(''test.csv'' := Some (write_records test_refs))\<rparr>)"
    by (rule WriteRefsToFile_takes)
  with decode_encoded [OF ok, of "''test.csv''" empty_fs]
  have r: "read_back test_refs ''test.csv'' empty_fs = Inr (map decoded test_refs)"
    by (simp add: read_back_def)
  note th = decoded_ID_is_zero [of "''test.csv''" empty_fs 0 test_refs]
  from th r have "\<forall>ref \<in> set (map decoded test_refs). ID ref = 0" by blast
  then have z: "map ID (map decoded test_refs) = [0, 0, 0]" by (simp add: test_refs_def)
  from th have "WriteRefsToFile (map (\<lambda>ref. ref\<lparr>ID := 0\<rparr>) test_refs) ''test.csv'' empty_fs
       = WriteRefsToFile test_refs ''test.csv'' empty_fs" by blast
  with r z show ?thesis by (simp add: test_refs_def)
qed


end

